theory Spec2Isabelle
  imports Main
begin

section \<open>Values shared by the runtime\<close>

text \<open>
  The result of \<^verbatim>\<open>String.prototype.match\<close> with a regular expression that has no
  \<^verbatim>\<open>g\<close> flag: \<^verbatim>\<open>null\<close> (here \<open>None\<close>) or a match array, of which the runtime
  reads the matched text, the \<^verbatim>\<open>input\<close> property and the named groups. A named group
  that did not take part in the match is \<^verbatim>\<open>undefined\<close>: it is absent from \<open>groups\<close>.
\<close>

record rmatch =
  matched :: string
  index :: nat
  input :: string
  groups :: "(string \<times> string) list"

text \<open>
  A regular expression without flags is stateless, so it is modelled by its match
  function on the input string.
\<close>

type_synonym pattern = "string \<Rightarrow> rmatch option"

definition group :: "rmatch \<Rightarrow> string \<Rightarrow> string option" where
  "group m name = map_of (groups m) name"

abbreviation CR :: char where "CR \<equiv> CHR 0x0D"
abbreviation LF :: char where "LF \<equiv> CHR 0x0A"
abbreviation ESC :: char where "ESC \<equiv> CHR 0x1B"

fun startsWith :: "string \<Rightarrow> string \<Rightarrow> bool" where
  "startsWith [] cs = True"
| "startsWith (l # ls) [] = False"
| "startsWith (l # ls) (c # cs) = (l = c \<and> startsWith ls cs)"

text \<open>Position of the leftmost occurrence of a literal text.\<close>

fun search :: "string \<Rightarrow> string \<Rightarrow> nat option" where
  "search lit [] = (if lit = [] then Some 0 else None)"
| "search lit (c # cs) =
     (if startsWith lit (c # cs) then Some 0 else map_option Suc (search lit cs))"

text \<open>A regular expression that is a literal text, such as \<^verbatim>\<open>/> /\<close> or \<^verbatim>\<open>/A =/\<close>.\<close>

definition literal :: "string \<Rightarrow> pattern" where
  "literal lit inp =
     (case search lit inp of
        None \<Rightarrow> None
      | Some i \<Rightarrow> Some \<lparr>matched = lit, index = i, input = inp, groups = []\<rparr>)"

text \<open>\<^verbatim>\<open>Runtime.interactive = /> /\<close> and \<^verbatim>\<open>Runtime.carriageReturn = /\r/\<close>.\<close>

definition interactive :: pattern where
  "interactive = literal ''> ''"

definition carriageReturn :: pattern where
  "carriageReturn = literal [CR]"

section \<open>The matcher queue\<close>

text \<open>
  A matcher holds its pattern and the \<^verbatim>\<open>resolve\<close> callback of the promise it was
  created in. The callback is modelled by the number of that promise; calling it is
  recorded in the log \<open>settled\<close> of the runtime. A multi matcher
  (\<^verbatim>\<open>untilInteractive: true\<close>) also holds the matches it has accumulated.
\<close>

datatype matcher =
  SingleMatcher pattern nat
| MultiMatcher pattern nat "rmatch list"

fun resolve :: "matcher \<Rightarrow> nat" where
  "resolve (SingleMatcher p r) = r"
| "resolve (MultiMatcher p r ms) = r"

datatype resolution = One rmatch | Many "rmatch list"

text \<open>What a promise is rejected with: an exception, or the text or number the code throws.\<close>

datatype thrown = TypeError | ReadError string | ThrownString string | ThrownNumber int

text \<open>
  The fields of \<^verbatim>\<open>Runtime\<close>. \<open>written\<close> lists the texts passed to
  \<^verbatim>\<open>process.write\<close>, \<open>emitted\<close> the payloads of the \<^verbatim>\<open>output\<close> events,
  \<open>settled\<close> the calls of \<^verbatim>\<open>resolve\<close> callbacks, all in order; \<open>promises\<close> counts
  the promises created by the two registration functions. \<open>lineMap\<close> and
  \<open>instructionList\<close> are \<open>None\<close> while the field is \<^verbatim>\<open>undefined\<close>; \<open>srcFile\<close> is the
  field \<^verbatim>\<open>file\<close>. A number is
  \<open>int option\<close>, \<open>None\<close> standing for \<^verbatim>\<open>NaN\<close>.
\<close>

type_synonym num = "int option"

record runtime =
  written :: "string list"
  emitted :: "string list"
  matchers :: "matcher list"
  outputBuffer :: "string list"
  settled :: "(nat \<times> resolution) list"
  promises :: nat
  lineMap :: "string list option"
  instructionList :: "num list option"
  srcFile :: "string option"
  dataListener :: bool

definition init :: runtime where
  "init = \<lparr>written = [], emitted = [], matchers = [], outputBuffer = [], settled = [],
            promises = 0, lineMap = None, instructionList = None, srcFile = None,
            dataListener = False\<rparr>"

text \<open>
  \<^verbatim>\<open>runNextMatcher\<close>: the head of the queue is tested against the input. Reading
  \<^verbatim>\<open>matcher.untilInteractive\<close> of an empty queue's head throws a TypeError before
  anything is changed.
\<close>

definition runNextMatcher :: "runtime \<Rightarrow> string \<Rightarrow> thrown + (bool \<times> runtime)" where
  "runNextMatcher s inp =
     (case matchers s of
        [] \<Rightarrow> Inl TypeError
      | SingleMatcher p r # rest \<Rightarrow>
          (case p inp of
             Some m \<Rightarrow> Inr (True, s\<lparr>matchers := rest, settled := settled s @ [(r, One m)]\<rparr>)
           | None \<Rightarrow> Inr (False, s))
      | MultiMatcher p r ms # rest \<Rightarrow>
          (case (if ms = [] then carriageReturn inp else None) of
             Some cr \<Rightarrow> Inr (False, s\<lparr>matchers := MultiMatcher p r (ms @ [cr]) # rest\<rparr>)
           | None \<Rightarrow>
               (case interactive inp of
                  Some i \<Rightarrow>
                    Inr (True, s\<lparr>matchers := rest, settled := settled s @ [(r, Many (tl ms))]\<rparr>)
                | None \<Rightarrow>
                    (case p inp of
                       Some m \<Rightarrow>
                         Inr (False, s\<lparr>matchers := MultiMatcher p r (ms @ [m]) # rest\<rparr>)
                     | None \<Rightarrow> Inr (False, s)))))"

text \<open>
  The loop at the end of both promise executors:
  \<^verbatim>\<open>while (outputBuffer.length > 0) { if (runNextMatcher(outputBuffer.shift())) return }\<close>.
  An exception of \<^verbatim>\<open>runNextMatcher\<close> ends the executor after the shift.
\<close>

function drainBuffer :: "runtime \<Rightarrow> runtime" where
  "drainBuffer s =
     (case outputBuffer s of
        [] \<Rightarrow> s
      | l # ls \<Rightarrow>
          (case runNextMatcher (s\<lparr>outputBuffer := ls\<rparr>) l of
             Inl e \<Rightarrow> s\<lparr>outputBuffer := ls\<rparr>
           | Inr (consumed, s') \<Rightarrow> if consumed then s' else drainBuffer s'))"
  by pat_completeness auto
termination
  by (relation "measure (\<lambda>s. length (outputBuffer s))")
     (auto simp: runNextMatcher_def split: list.splits matcher.splits option.splits if_splits)

declare drainBuffer.simps [simp del]

text \<open>
  Both registration functions create a promise whose executor runs at once: it queues
  the matcher, which holds the promise's \<^verbatim>\<open>resolve\<close>, and drains the buffer.
  \<^verbatim>\<open>matchResponse(...patterns)\<close> creates one promise per pattern, in order, and
  returns the list of the promises that \<^verbatim>\<open>Promise.all\<close> waits for.
\<close>

definition executor :: "matcher \<Rightarrow> runtime \<Rightarrow> runtime" where
  "executor m s =
     drainBuffer (s\<lparr>matchers := matchers s @ [m], promises := Suc (promises s)\<rparr>)"

fun matchResponse :: "pattern list \<Rightarrow> runtime \<Rightarrow> nat list \<times> runtime" where
  "matchResponse [] s = ([], s)"
| "matchResponse (p # ps) s =
     (case matchResponse ps (executor (SingleMatcher p (promises s)) s) of
        (rs, s') \<Rightarrow> (promises s # rs, s'))"

definition matchUntilInteractive :: "pattern \<Rightarrow> runtime \<Rightarrow> nat \<times> runtime" where
  "matchUntilInteractive p s = (promises s, executor (MultiMatcher p (promises s) []) s)"

text \<open>
  The listener of \<^verbatim>\<open>process.onData\<close>. \<open>replaceCursorRight\<close> is the
  \<^verbatim>\<open>replace(/\x1B\[(\d)C/g, ...)\<close> of the listener; \<^verbatim>\<open>stripAnsi\<close> belongs to a
  library and is a parameter. \<open>acceptData\<close> is the listener from the sanitized
  text on.
\<close>

definition isDigit :: "char \<Rightarrow> bool" where
  "isDigit c = (c \<in> set ''0123456789'')"

definition digitVal :: "char \<Rightarrow> nat" where
  "digitVal c = of_char c - of_char CHR ''0''"

fun replaceCursorRight :: "string \<Rightarrow> string" where
  "replaceCursorRight (e # b # d # c # rest) =
     (if e = ESC \<and> b = CHR ''['' \<and> isDigit d \<and> c = CHR ''C''
      then replicate (digitVal d) CHR '' '' @ replaceCursorRight rest
      else e # replaceCursorRight (b # d # c # rest))"
| "replaceCursorRight cs = cs"

definition acceptData :: "runtime \<Rightarrow> string \<Rightarrow> runtime" where
  "acceptData s data =
     (if length (matchers s) > 0
      then (case runNextMatcher s data of Inl e \<Rightarrow> s | Inr (consumed, s') \<Rightarrow> s')
      else s\<lparr>outputBuffer := outputBuffer s @ [data]\<rparr>)"

definition onData :: "(string \<Rightarrow> string) \<Rightarrow> runtime \<Rightarrow> string \<Rightarrow> runtime" where
  "onData stripAnsi s rawData =
     acceptData (s\<lparr>emitted := emitted s @ [rawData]\<rparr>) (stripAnsi (replaceCursorRight rawData))"

text \<open>
  \<^verbatim>\<open>sendCommand\<close>: the command and its arguments joined by spaces, with a CRLF. An
  argument that is \<^verbatim>\<open>undefined\<close> (here \<open>None\<close>) is joined as the empty text.
\<close>

fun join :: "string \<Rightarrow> string list \<Rightarrow> string" where
  "join sep [] = []"
| "join sep [x] = x"
| "join sep (x # y # ys) = x @ sep @ join sep (y # ys)"

definition sendCommand :: "string \<Rightarrow> string option list \<Rightarrow> runtime \<Rightarrow> runtime" where
  "sendCommand command args s =
     s\<lparr>written := written s @
        [join '' '' (command # map (\<lambda>a. case a of None \<Rightarrow> [] | Some t \<Rightarrow> t) args) @ [CR, LF]]\<rparr>"

text \<open>
  \<^verbatim>\<open>initialize\<close> up to its \<^verbatim>\<open>await\<close>: the process is spawned and the listener
  attached, the dummy command is sent and two matchers are queued.
\<close>

definition initialize :: "runtime \<Rightarrow> nat list \<times> runtime" where
  "initialize s =
     matchResponse [literal ''A ='', interactive] (sendCommand ''r'' [] (s\<lparr>dataListener := True\<rparr>))"

section \<open>Reading the listing: \<^verbatim>\<open>parseLst\<close>\<close>

definition isUpperHex :: "char \<Rightarrow> bool" where
  "isUpperHex c = (c \<in> set ''0123456789ABCDEF'')"

text \<open>
  The pattern \<^verbatim>\<open>/(?<address>[0-9A-F]{4}) (?:[0-9A-F]*)? *(?<line>\d*)/\<close>. It matches at
  the leftmost position where four upper-case hexadecimal digits are followed by a space;
  what follows can match the empty text, so each greedy part takes its longest run and
  nothing is given back. \<open>lstMatchAt\<close> is the match anchored at the start of the text and
  yields the two named groups.
\<close>

definition lstMatchAt :: "string \<Rightarrow> (string \<times> string) option" where
  "lstMatchAt cs =
     (if 5 \<le> length cs \<and> list_all isUpperHex (take 4 cs) \<and> cs ! 4 = CHR '' ''
      then Some (take 4 cs,
                 takeWhile isDigit
                   (dropWhile (\<lambda>c. c = CHR '' '') (dropWhile isUpperHex (drop 5 cs))))
      else None)"

fun lstSearch :: "string \<Rightarrow> (string \<times> string) option" where
  "lstSearch [] = lstMatchAt []"
| "lstSearch (c # cs) =
     (case lstMatchAt (c # cs) of Some g \<Rightarrow> Some g | None \<Rightarrow> lstSearch cs)"

text \<open>
  \<^verbatim>\<open>parseInt\<close> of the group \<^verbatim>\<open>line\<close>, a text of decimal digits: the empty text
  gives \<^verbatim>\<open>NaN\<close>. Line numbers are taken as exact integers (a JavaScript number is
  exact up to \<open>2^53\<close>).
\<close>

definition parseInt10 :: "string \<Rightarrow> num" where
  "parseInt10 ds =
     (if takeWhile isDigit ds = [] then None
      else Some (int (foldl (\<lambda>a c. 10 * a + digitVal c) 0 (takeWhile isDigit ds))))"

text \<open>\<^verbatim>\<open>data.split('\r\n')\<close>; the first argument is the line read so far.\<close>

fun splitCRLF :: "string \<Rightarrow> string \<Rightarrow> string list" where
  "splitCRLF cur (c # d # cs) =
     (if c = CR \<and> d = LF then cur # splitCRLF [] cs else splitCRLF (cur @ [c]) (d # cs))"
| "splitCRLF cur [c] = [cur @ [c]]"
| "splitCRLF cur [] = [cur]"

text \<open>\<^verbatim>\<open>a !== b\<close> on numbers: \<^verbatim>\<open>NaN\<close> differs from every number, itself included.\<close>

fun numNeq :: "num \<Rightarrow> num \<Rightarrow> bool" where
  "numNeq (Some a) (Some b) = (a \<noteq> b)"
| "numNeq a b = True"

text \<open>
  The first loop of \<^verbatim>\<open>parseLst\<close>, over the lines from the last to the first (the
  argument is the reversed list of lines); it yields \<^verbatim>\<open>lineMap\<close> and
  \<^verbatim>\<open>lastLine\<close> at the \<^verbatim>\<open>break\<close> or at the end.
\<close>

fun lstLoop :: "string list \<Rightarrow> string list \<Rightarrow> num \<Rightarrow> string list \<times> num" where
  "lstLoop [] lmap lastLine = (lmap, lastLine)"
| "lstLoop (l # ls) lmap lastLine =
     (case lstSearch l of
        None \<Rightarrow> lstLoop ls lmap lastLine
      | Some (addr, lineText) \<Rightarrow>
          (if numNeq lastLine (Some (- 1)) \<and>
              numNeq (parseInt10 lineText) (map_option (\<lambda>n. n - 1) lastLine)
           then (lmap, lastLine)
           else lstLoop ls (addr # lmap) (parseInt10 lineText)))"

text \<open>The second loop: \<^verbatim>\<open>for (; lastLine > 1; lastLine--) lineMap.unshift('0000')\<close>.\<close>

function padLoop :: "string list \<Rightarrow> int \<Rightarrow> string list" where
  "padLoop lmap lastLine =
     (if lastLine > 1 then padLoop (''0000'' # lmap) (lastLine - 1) else lmap)"
  by pat_completeness auto
termination
  by (relation "measure (\<lambda>(lmap, lastLine). nat lastLine)") auto

declare padLoop.simps [simp del]

text \<open>
  \<^verbatim>\<open>parseLst\<close>. The file system is the parameter \<open>readFile\<close>, from a path to the
  error or the content of the file; an error rejects the promise. \<^verbatim>\<open>NaN > 1\<close> is
  false, so a \<^verbatim>\<open>lastLine\<close> that is \<^verbatim>\<open>NaN\<close> pads nothing.
\<close>

definition parseLst :: "(string \<Rightarrow> thrown + string) \<Rightarrow> string \<Rightarrow> thrown + string list" where
  "parseLst readFile asmPath =
     (case readFile (take (length asmPath - 3) asmPath @ ''lst'') of
        Inl err \<Rightarrow> Inl err
      | Inr data \<Rightarrow>
          (case lstLoop (rev (splitCRLF [] data)) [] (Some (- 1)) of
             (lmap, None) \<Rightarrow> Inr lmap
           | (lmap, Some lastLine) \<Rightarrow> Inr (padLoop lmap lastLine)))"

section \<open>Operations of the runtime\<close>

text \<open>
  An asynchronous operation is modelled from its call to the settling of its promise:
  the part before the \<^verbatim>\<open>await\<close> changes the runtime, then the listener hears the
  sanitized texts \<open>heard\<close>, and the part after the \<^verbatim>\<open>await\<close> runs if the awaited
  promises have been resolved. The promise of an operation whose awaited promises stay
  unresolved is \<open>Pending\<close>.
\<close>

datatype 'a outcome = Pending | Rejected thrown | Returned 'a

text \<open>\<^verbatim>\<open>Promise.all\<close> of promises of the queue: the resolved values, once all are resolved.\<close>

definition awaitAll :: "nat list \<Rightarrow> runtime \<Rightarrow> resolution list option" where
  "awaitAll rs s = those (map (map_of (settled s)) rs)"

text \<open>Reading an array at a number: \<^verbatim>\<open>undefined\<close> outside the array.\<close>

definition at :: "'a list \<Rightarrow> int \<Rightarrow> 'a option" where
  "at xs i = (if 0 \<le> i \<and> i < int (length xs) then Some (xs ! nat i) else None)"

fun indexOf :: "'a list \<Rightarrow> 'a \<Rightarrow> int" where
  "indexOf [] x = - 1"
| "indexOf (y # ys) x =
     (if y = x then 0 else if indexOf ys x < 0 then - 1 else indexOf ys x + 1)"

definition lastIndexOf :: "'a list \<Rightarrow> 'a \<Rightarrow> int" where
  "lastIndexOf xs x =
     (if indexOf (rev xs) x < 0 then - 1 else int (length xs) - 1 - indexOf (rev xs) x)"

text \<open>\<^verbatim>\<open>lineMap.lastIndexOf(address)\<close> where the address may be \<^verbatim>\<open>undefined\<close>.\<close>

definition lastIndexOfAddress :: "string list \<Rightarrow> string option \<Rightarrow> int" where
  "lastIndexOfAddress lmap a = (case a of None \<Rightarrow> - 1 | Some t \<Rightarrow> lastIndexOf lmap t)"

text \<open>\<^verbatim>\<open>Array.from(new Set(xs))\<close>: the distinct elements in the order of their first occurrence.\<close>

definition fromSet :: "'a list \<Rightarrow> 'a list" where
  "fromSet xs = rev (remdups (rev xs))"

text \<open>
  \<^verbatim>\<open>parseInt(text, 16)\<close> for a text that starts with neither white space, a sign nor
  \<^verbatim>\<open>0x\<close>: the value of its longest prefix of hexadecimal digits, \<^verbatim>\<open>NaN\<close> when that
  is empty. \<^verbatim>\<open>parseInt(undefined, 16)\<close> is \<^verbatim>\<open>NaN\<close>.
\<close>

definition isHexDigit :: "char \<Rightarrow> bool" where
  "isHexDigit c = (c \<in> set ''0123456789ABCDEFabcdef'')"

definition hexDigitVal :: "char \<Rightarrow> nat" where
  "hexDigitVal c =
     (if isDigit c then of_char c - of_char CHR ''0''
      else if c \<in> set ''ABCDEF'' then of_char c - of_char CHR ''A'' + 10
      else of_char c - of_char CHR ''a'' + 10)"

definition parseInt16 :: "string option \<Rightarrow> num" where
  "parseInt16 t =
     (case t of
        None \<Rightarrow> None
      | Some cs \<Rightarrow>
          (if takeWhile isHexDigit cs = [] then None
           else Some (int (foldl (\<lambda>a c. 16 * a + hexDigitVal c) 0 (takeWhile isHexDigit cs)))))"

text \<open>\<^verbatim>\<open>n.toString(16)\<close> for an integer or \<^verbatim>\<open>NaN\<close>.\<close>

definition hexDigit :: "nat \<Rightarrow> char" where
  "hexDigit d = ''0123456789abcdef'' ! d"

function toHex :: "nat \<Rightarrow> string" where
  "toHex n = (if n < 16 then [hexDigit n] else toHex (n div 16) @ [hexDigit (n mod 16)])"
  by pat_completeness auto
termination
  by (relation "measure id") auto

declare toHex.simps [simp del]

definition toString16 :: "num \<Rightarrow> string" where
  "toString16 x =
     (case x of
        None \<Rightarrow> ''NaN''
      | Some i \<Rightarrow> if i < 0 then CHR ''-'' # toHex (nat (- i)) else toHex (nat i))"

subsection \<open>\<^verbatim>\<open>setBreakpoints\<close>\<close>

text \<open>
  The assignments of \<^verbatim>\<open>setBreakpoints\<close> to \<^verbatim>\<open>file\<close>, \<^verbatim>\<open>lineMap\<close> and
  \<^verbatim>\<open>instructionList\<close>.
\<close>

definition assignLineMap :: "string \<Rightarrow> string list \<Rightarrow> runtime \<Rightarrow> runtime" where
  "assignLineMap path lmap s =
     s\<lparr>srcFile := Some path, lineMap := Some lmap,
       instructionList := Some (map (\<lambda>a. parseInt16 (Some a)) (fromSet lmap))\<rparr>"

text \<open>The address of each requested line, as \<^verbatim>\<open>setBreakpoints\<close> computes it.\<close>

definition breakpointAddresses :: "string list \<Rightarrow> int list \<Rightarrow> string option list" where
  "breakpointAddresses lmap lns =
     map (\<lambda>ln. if ln < int (length lmap) then at lmap ln else at lmap (int (length lmap))) lns"

text \<open>
  \<^verbatim>\<open>setBreakpoints\<close>. An array is truthy, so a line map that is set is kept and the
  listing is read only while \<^verbatim>\<open>lineMap\<close> is \<^verbatim>\<open>undefined\<close>.
\<close>

definition setBreakpoints ::
  "(string \<Rightarrow> thrown + string) \<Rightarrow> string \<Rightarrow> int list \<Rightarrow> runtime \<Rightarrow> string list \<Rightarrow>
     int list outcome \<times> runtime" where
  "setBreakpoints readFile path lns s heard =
     (case (case lineMap s of Some lmap \<Rightarrow> Inr lmap | None \<Rightarrow> parseLst readFile path) of
        Inl err \<Rightarrow> (Rejected err, s\<lparr>srcFile := Some path\<rparr>)
      | Inr lmap \<Rightarrow>
          (case matchResponse
                  (replicate (length (breakpointAddresses lmap lns) + 1) interactive)
                  (foldl (\<lambda>s' a. sendCommand ''bron'' [a] s')
                     (sendCommand ''brc'' [] (assignLineMap path lmap s))
                     (breakpointAddresses lmap lns)) of
             (rs, s1) \<Rightarrow>
               (case awaitAll rs (foldl acceptData s1 heard) of
                  None \<Rightarrow> (Pending, foldl acceptData s1 heard)
                | Some ms \<Rightarrow>
                    (Returned (map (lastIndexOfAddress lmap) (breakpointAddresses lmap lns)),
                     foldl acceptData s1 heard))))"

subsection \<open>\<^verbatim>\<open>readVariable\<close>\<close>




subsection \<open>\<^verbatim>\<open>disassemble\<close>\<close>

text \<open>An \<^verbatim>\<open>Instruction\<close>; a text taken from a group is \<open>None\<close> when \<^verbatim>\<open>undefined\<close>.\<close>

record Instruction =
  address :: "string option"
  instruction :: "string option"
  line :: int

text \<open>
  The pattern \<^verbatim>\<open>/(?<address>[0-9A-F]+): *(?<instruction>.+)/\<close>, anchored at the start
  of the text: the longest run of upper-case hexadecimal digits, a colon, spaces, and at
  least one character up to the end of the line (a carriage return or a line feed, in
  the byte texts modelled here). When nothing but spaces stands before the end of the
  line, the last space is given back to \<^verbatim>\<open>.+\<close>.
\<close>

definition isLineEnd :: "char \<Rightarrow> bool" where
  "isLineEnd c = (c = CR \<or> c = LF)"

definition disassemblyAt :: "string \<Rightarrow> (string \<times> string) option" where
  "disassemblyAt cs =
     (case (takeWhile isUpperHex cs, dropWhile isUpperHex cs) of
        (a, colon # rest) \<Rightarrow>
          (if a \<noteq> [] \<and> colon = CHR '':''
           then (case takeWhile (\<lambda>c. \<not> isLineEnd c) (dropWhile (\<lambda>c. c = CHR '' '') rest) of
                   [] \<Rightarrow> if takeWhile (\<lambda>c. c = CHR '' '') rest \<noteq> []
                         then Some (a, '' '') else None
                 | t # ts \<Rightarrow> Some (a, t # ts))
           else None)
      | (a, []) \<Rightarrow> None)"

fun disassemblySearch :: "nat \<Rightarrow> string \<Rightarrow> (nat \<times> string \<times> string) option" where
  "disassemblySearch i [] = None"
| "disassemblySearch i (c # cs) =
     (case disassemblyAt (c # cs) of
        Some (a, t) \<Rightarrow> Some (i, a, t)
      | None \<Rightarrow> disassemblySearch (Suc i) cs)"

definition disassemblyLine :: pattern where
  "disassemblyLine inp =
     (case disassemblySearch 0 inp of
        None \<Rightarrow> None
      | Some (i, a, t) \<Rightarrow>
          Some \<lparr>matched = a @ takeWhile (\<lambda>c. \<not> isLineEnd c) (drop (i + length a) inp),
                index = i, input = inp, groups = [(''address'', a), (''instruction'', t)]\<rparr>)"

text \<open>
  The loop that pads the indices below zero:
  \<^verbatim>\<open>for (let i = startInstr; i < 0 && i < startInstr + instructionCount; i++)\<close>.
\<close>

definition nop :: "int \<Rightarrow> Instruction" where
  "nop i = \<lparr>address = Some (if i \<noteq> - 1 then toString16 (Some i) else ''-1 ''),
            instruction = Some ''00        nop'', line = - 1\<rparr>"

function nopLoop :: "int \<Rightarrow> int \<Rightarrow> Instruction list" where
  "nopLoop i bound = (if i < 0 \<and> i < bound then nop i # nopLoop (i + 1) bound else [])"
  by pat_completeness auto
termination
  by (relation "measure (\<lambda>(i, bound). nat (- i))") auto

declare nopLoop.simps [simp del]

text \<open>
  \<^verbatim>\<open>endAddress\<close> is \<^verbatim>\<open>undefined\<close> for an empty instruction list; in comparisons and
  sums it behaves as \<^verbatim>\<open>NaN\<close> does, so that both are \<open>None\<close>.
\<close>

definition endAddress :: "num list \<Rightarrow> num" where
  "endAddress il = (if il = [] then None else last il)"

definition baseInstr :: "num list \<Rightarrow> int \<Rightarrow> int" where
  "baseInstr il addr =
     (if addr < 0 then addr
      else (case endAddress il of
              Some e \<Rightarrow> if addr > e then int (length il) - 1 + addr - e else indexOf il (Some addr)
            | None \<Rightarrow> indexOf il (Some addr)))"

text \<open>The start address and the count of the command sent to the debugger.\<close>

definition debuggerWindow :: "num list \<Rightarrow> int \<Rightarrow> int \<Rightarrow> num \<times> int" where
  "debuggerWindow il startInstr instructionCount =
     (if startInstr < 0 then (Some 0, instructionCount + startInstr)
      else if startInstr \<ge> int (length il)
      then (map_option (\<lambda>e. e + startInstr - (int (length il) - 1)) (endAddress il), instructionCount)
      else (il ! nat startInstr, instructionCount))"

text \<open>
  The part of \<^verbatim>\<open>disassemble\<close> after the \<^verbatim>\<open>await\<close>: one record per match.
  \<^verbatim>\<open>this.lineMap\<close> is read only for a match whose address is at most
  \<^verbatim>\<open>endAddress\<close>, and reading \<^verbatim>\<open>lastIndexOf\<close> of \<^verbatim>\<open>undefined\<close> throws.
\<close>

definition realInstruction :: "string list option \<Rightarrow> num \<Rightarrow> rmatch \<Rightarrow> thrown + Instruction" where
  "realInstruction lmap e m =
     (case (parseInt16 (group m ''address''), e) of
        (Some a, Some e') \<Rightarrow>
          (if a \<le> e'
           then (case lmap of
                   None \<Rightarrow> Inl TypeError
                 | Some lm \<Rightarrow>
                     Inr \<lparr>address = group m ''address'', instruction = group m ''instruction'',
                          line = lastIndexOfAddress lm (group m ''address'')\<rparr>)
           else Inr \<lparr>address = group m ''address'', instruction = group m ''instruction'',
                     line = - 1\<rparr>)
      | other \<Rightarrow>
          Inr \<lparr>address = group m ''address'', instruction = group m ''instruction'', line = - 1\<rparr>)"

fun realInstructions :: "string list option \<Rightarrow> num \<Rightarrow> rmatch list \<Rightarrow> thrown + Instruction list" where
  "realInstructions lmap e [] = Inr []"
| "realInstructions lmap e (m # ms) =
     (case realInstruction lmap e m of
        Inl err \<Rightarrow> Inl err
      | Inr x \<Rightarrow> (case realInstructions lmap e ms of Inl err \<Rightarrow> Inl err | Inr xs \<Rightarrow> Inr (x # xs)))"

text \<open>
  \<^verbatim>\<open>disassemble\<close>. Reading \<^verbatim>\<open>this.instructionList.length\<close> before any call of
  \<^verbatim>\<open>setBreakpoints\<close> throws. The address, the count and the offset are integers.
\<close>

definition disassemble ::
  "int \<Rightarrow> int \<Rightarrow> int \<Rightarrow> runtime \<Rightarrow> string list \<Rightarrow> Instruction list outcome \<times> runtime" where
  "disassemble addr instructionCount instructionOffset s heard =
     (case instructionList s of
        None \<Rightarrow> (Rejected TypeError, s)
      | Some il \<Rightarrow>
          (if baseInstr il addr + instructionOffset + instructionCount > 0
           then (case debuggerWindow il (baseInstr il addr + instructionOffset) instructionCount of
                   (start, cnt) \<Rightarrow>
                     (case matchUntilInteractive disassemblyLine
                             (sendCommand ''u'' [Some (toString16 start), Some (toString16 (Some cnt))] s) of
                        (r, s1) \<Rightarrow>
                          (case map_of (settled (foldl acceptData s1 heard)) r of
                             None \<Rightarrow> (Pending, foldl acceptData s1 heard)
                           | Some (One m) \<Rightarrow> (Rejected TypeError, foldl acceptData s1 heard)
                           | Some (Many ms) \<Rightarrow>
                               (case realInstructions (lineMap s) (endAddress il) ms of
                                  Inl err \<Rightarrow> (Rejected err, foldl acceptData s1 heard)
                                | Inr xs \<Rightarrow>
                                    (Returned
                                       (nopLoop (baseInstr il addr + instructionOffset)
                                          (baseInstr il addr + instructionOffset + instructionCount) @ xs),
                                     foldl acceptData s1 heard)))))
           else (Returned
                   (nopLoop (baseInstr il addr + instructionOffset)
                      (baseInstr il addr + instructionOffset + instructionCount)),
                 s)))"

subsection \<open>\<^verbatim>\<open>terminate\<close> and the adapter's \<^verbatim>\<open>terminateRequest\<close>\<close>

text \<open>
  \<open>exit\<close> is the exit code of the process, \<open>None\<close> if it does not exit. The exit
  listener disposes of the data listener and settles the promise.
\<close>

definition terminate :: "runtime \<Rightarrow> int option \<Rightarrow> unit outcome \<times> runtime" where
  "terminate s exit =
     (case exit of
        None \<Rightarrow> (Pending, sendCommand ''exit'' [] s)
      | Some exitCode \<Rightarrow>
          (if exitCode \<noteq> 0 then Rejected (ThrownNumber exitCode) else Returned (),
           (sendCommand ''exit'' [] s)\<lparr>dataListener := False\<rparr>))"

text \<open>
  What the debug session sends to its client. The exit code of an \<^verbatim>\<open>ExitedEvent\<close> is
  the number \<open>0\<close> or whatever the \<^verbatim>\<open>catch\<close> clause caught.
\<close>

datatype payload = Number int | Caught thrown

datatype message = Response | TerminatedEvent | ExitedEvent payload

fun caught :: "thrown \<Rightarrow> payload" where
  "caught (ThrownNumber n) = Number n"
| "caught e = Caught e"

definition terminateRequest :: "runtime \<Rightarrow> int option \<Rightarrow> message list \<times> runtime" where
  "terminateRequest s exit =
     (case terminate s exit of
        (Pending, s') \<Rightarrow> ([Response], s')
      | (Rejected e, s') \<Rightarrow> ([Response, TerminatedEvent, ExitedEvent (caught e)], s')
      | (Returned u, s') \<Rightarrow> ([Response, TerminatedEvent, ExitedEvent (Number 0)], s'))"

section \<open>Sessions\<close>

text \<open>
  What happens to the runtime during a session, one event at a time: the runtime is
  initialized; the process emits a chunk of output, heard while the listener is
  attached; an operation writes a command, registers expectations through one of the
  two registration functions, or (in \<^verbatim>\<open>setBreakpoints\<close>) assigns the file and the
  line map; the listener is disposed of. Every operation of the runtime is a sequence
  of such events.
\<close>

datatype event =
  Initialize
| Output string
| SendCommand string "string option list"
| MatchResponse "pattern list"
| MatchUntilInteractive pattern
| AssignLineMap string "string list"
| Dispose

fun step :: "(string \<Rightarrow> string) \<Rightarrow> runtime \<Rightarrow> event \<Rightarrow> runtime" where
  "step stripAnsi s Initialize = snd (initialize s)"
| "step stripAnsi s (Output rawData) = (if dataListener s then onData stripAnsi s rawData else s)"
| "step stripAnsi s (SendCommand command args) = sendCommand command args s"
| "step stripAnsi s (MatchResponse ps) = snd (matchResponse ps s)"
| "step stripAnsi s (MatchUntilInteractive p) = snd (matchUntilInteractive p s)"
| "step stripAnsi s (AssignLineMap path parsed) =
     assignLineMap path (case lineMap s of Some lmap \<Rightarrow> lmap | None \<Rightarrow> parsed) s"
| "step stripAnsi s Dispose = s\<lparr>dataListener := False\<rparr>"

definition run :: "(string \<Rightarrow> string) \<Rightarrow> event list \<Rightarrow> runtime" where
  "run stripAnsi evs = foldl (step stripAnsi) init evs"

section \<open>Predicates of the statements\<close>

text \<open>
  The promises in the order in which a session has dealt with them: those resolved, in
  the order of their resolution, then those of the queued matchers, in the order of the
  queue. The queue is \<open>ordered\<close> when these are the promises in the order of their
  creation.
\<close>

definition tickets :: "runtime \<Rightarrow> nat list" where
  "tickets s = map fst (settled s) @ map resolve (matchers s)"

definition ordered :: "runtime \<Rightarrow> bool" where
  "ordered s = (tickets s = [0..<promises s])"

text \<open>No line waits in the backlog while an expectation is queued.\<close>

definition backlogFree :: "runtime \<Rightarrow> bool" where
  "backlogFree s = (matchers s = [] \<or> outputBuffer s = [])"

text \<open>A text of four upper-case hexadecimal digits, as \<^verbatim>\<open>[0-9A-F]{4}\<close> matches.\<close>

definition fourUpperHex :: "string \<Rightarrow> bool" where
  "fourUpperHex a = (length a = 4 \<and> list_all isUpperHex a)"

text \<open>
  An exchange is an expectation together with lines that serve it. A single expectation
  is served by lines that its pattern does not match followed by a line that it
  matches. A multi expectation is served by an echo (a line with a carriage return),
  lines without the prompt, each with the result of the pattern on it, and a line with
  the prompt. \<open>registers\<close> is the event that registers the expectation, \<open>queued\<close>
  the matcher it queues for a promise, \<open>linesOf\<close> the lines and \<open>resolvedWith\<close> the
  value the promise is to be resolved with: the match of the matching line, or the
  matches of the lines between the echo and the prompt, in order.
\<close>

datatype exchange =
  SingleExchange pattern "string list" string rmatch
| MultiExchange pattern string "(string \<times> rmatch option) list" string

fun wellServed :: "exchange \<Rightarrow> bool" where
  "wellServed (SingleExchange p noise l m) = (list_all (\<lambda>n. p n = None) noise \<and> p l = Some m)"
| "wellServed (MultiExchange p echo body prompt) =
     (carriageReturn echo \<noteq> None \<and>
      list_all (\<lambda>(l, mo). p l = mo \<and> interactive l = None) body \<and>
      interactive prompt \<noteq> None)"

fun registers :: "exchange \<Rightarrow> event" where
  "registers (SingleExchange p noise l m) = MatchResponse [p]"
| "registers (MultiExchange p echo body prompt) = MatchUntilInteractive p"

fun linesOf :: "exchange \<Rightarrow> string list" where
  "linesOf (SingleExchange p noise l m) = noise @ [l]"
| "linesOf (MultiExchange p echo body prompt) = echo # map fst body @ [prompt]"

fun resolvedWith :: "exchange \<Rightarrow> resolution" where
  "resolvedWith (SingleExchange p noise l m) = One m"
| "resolvedWith (MultiExchange p echo body prompt) = Many (List.map_filter snd body)"

fun queued :: "exchange \<Rightarrow> nat \<Rightarrow> matcher" where
  "queued (SingleExchange p noise l m) r = SingleMatcher p r"
| "queued (MultiExchange p echo body prompt) r = MultiMatcher p r []"

section \<open>Properties of the matcher queue\<close>

lemma runNextMatcher_outputBuffer:
  "runNextMatcher s inp = Inr (c, s') \<Longrightarrow> outputBuffer s' = outputBuffer s"
  by (auto simp: runNextMatcher_def split: list.splits matcher.splits option.splits if_splits)

lemma drainBuffer_Nil: "outputBuffer s = [] \<Longrightarrow> drainBuffer s = s"
  by (simp add: drainBuffer.simps)

lemma drainBuffer_Cons:
  "outputBuffer s = l # ls \<Longrightarrow>
   drainBuffer s =
     (case runNextMatcher (s\<lparr>outputBuffer := ls\<rparr>) l of
        Inl e \<Rightarrow> s\<lparr>outputBuffer := ls\<rparr>
      | Inr (consumed, s') \<Rightarrow> if consumed then s' else drainBuffer s')"
  by (simp add: drainBuffer.simps[of s])

text \<open>
  A property kept by every run of the head matcher and by every shift of the buffer is
  kept by the drain loop.
\<close>

lemma drainBuffer_keeps:
  assumes shift: "\<And>s b. P s \<Longrightarrow> P (s\<lparr>outputBuffer := b\<rparr>)"
    and head: "\<And>s inp c s'. P s \<Longrightarrow> runNextMatcher s inp = Inr (c, s') \<Longrightarrow> P s'"
  shows "P s \<Longrightarrow> P (drainBuffer s)"
proof (induction s rule: drainBuffer.induct)
  case (1 s)
  show ?case
  proof (cases "outputBuffer s")
    case Nil
    then show ?thesis using "1.prems" by (simp add: drainBuffer_Nil)
  next
    case (Cons l ls)
    have P0: "P (s\<lparr>outputBuffer := ls\<rparr>)" using "1.prems" by (rule shift)
    show ?thesis
    proof (cases "runNextMatcher (s\<lparr>outputBuffer := ls\<rparr>) l")
      case (Inl e)
      then show ?thesis using Cons P0 by (simp add: drainBuffer_Cons)
    next
      case (Inr r)
      obtain c s' where r: "r = (c, s')" by (cases r)
      have P1: "P s'" using head[OF P0 Inr[unfolded r]] .
      show ?thesis
      proof (cases c)
        case True
        then show ?thesis using Cons Inr r P1 by (simp add: drainBuffer_Cons)
      next
        case False
        have "P (drainBuffer s')" using "1.IH"[OF Cons Inr r[symmetric] False P1] .
        then show ?thesis using Cons Inr r False by (simp add: drainBuffer_Cons)
      qed
    qed
  qed
qed

lemma runNextMatcher_tickets:
  "runNextMatcher s inp = Inr (c, s') \<Longrightarrow> tickets s' = tickets s \<and> promises s' = promises s"
  by (auto simp: runNextMatcher_def tickets_def split: list.splits matcher.splits option.splits if_splits)

lemma tickets_upd [simp]:
  "tickets (s\<lparr>outputBuffer := b\<rparr>) = tickets s"
  "tickets (s\<lparr>emitted := e\<rparr>) = tickets s"
  "tickets (s\<lparr>written := w\<rparr>) = tickets s"
  "tickets (s\<lparr>dataListener := d\<rparr>) = tickets s"
  "tickets (s\<lparr>promises := n\<rparr>) = tickets s"
  "tickets (s\<lparr>matchers := matchers s @ [m]\<rparr>) = tickets s @ [resolve m]"
  by (simp_all add: tickets_def)

lemma drainBuffer_tickets:
  "tickets (drainBuffer s) = tickets s \<and> promises (drainBuffer s) = promises s"
proof (rule drainBuffer_keeps[where P = "\<lambda>u. tickets u = tickets s \<and> promises u = promises s"])
  show "tickets s = tickets s \<and> promises s = promises s" by simp
next
  fix u b assume "tickets u = tickets s \<and> promises u = promises s"
  then show "tickets (u\<lparr>outputBuffer := b\<rparr>) = tickets s \<and> promises (u\<lparr>outputBuffer := b\<rparr>) = promises s"
    by simp
next
  fix u inp c u'
  assume "tickets u = tickets s \<and> promises u = promises s" and "runNextMatcher u inp = Inr (c, u')"
  then show "tickets u' = tickets s \<and> promises u' = promises s"
    using runNextMatcher_tickets[of u inp c u'] by simp
qed

lemma executor_ordered: "ordered s \<Longrightarrow> resolve m = promises s \<Longrightarrow> ordered (executor m s)"
  by (simp add: ordered_def executor_def drainBuffer_tickets)

lemma matchResponse_Cons:
  "snd (matchResponse (p # ps) s) = snd (matchResponse ps (executor (SingleMatcher p (promises s)) s))"
  by (simp split: prod.splits)

lemma matchResponse_ordered: "ordered s \<Longrightarrow> ordered (snd (matchResponse ps s))"
proof (induction ps arbitrary: s)
  case Nil
  then show ?case by simp
next
  case (Cons p ps)
  show ?case unfolding matchResponse_Cons
    by (rule Cons.IH) (rule executor_ordered[OF Cons.prems], simp)
qed

lemma matchUntilInteractive_ordered: "ordered s \<Longrightarrow> ordered (snd (matchUntilInteractive p s))"
  by (simp add: matchUntilInteractive_def executor_ordered)

lemma acceptData_ordered:
  assumes "ordered s" shows "ordered (acceptData s l)"
proof (cases "runNextMatcher s l")
  case (Inl e)
  then show ?thesis using assms by (simp add: acceptData_def ordered_def)
next
  case (Inr r)
  obtain c s' where r: "r = (c, s')" by (cases r)
  show ?thesis using assms Inr r runNextMatcher_tickets[of s l c s']
    by (simp add: acceptData_def ordered_def)
qed

lemma step_ordered:
  assumes o: "ordered s" shows "ordered (step strip s ev)"
proof (cases ev)
  case Initialize
  have "ordered (sendCommand ''r'' [] (s\<lparr>dataListener := True\<rparr>))"
    using o by (simp add: ordered_def sendCommand_def)
  then have "ordered (snd (initialize s))"
    unfolding initialize_def by (rule matchResponse_ordered)
  then show ?thesis using Initialize by simp
next
  case (Output raw)
  have "ordered (s\<lparr>emitted := emitted s @ [raw]\<rparr>)" using o by (simp add: ordered_def)
  then show ?thesis using Output o by (simp add: onData_def acceptData_ordered)
next
  case (SendCommand command args)
  then show ?thesis using o by (simp add: ordered_def sendCommand_def)
next
  case (MatchResponse ps)
  then show ?thesis using o by (simp add: matchResponse_ordered)
next
  case (MatchUntilInteractive p)
  then show ?thesis using o by (simp add: matchUntilInteractive_ordered)
next
  case (AssignLineMap path parsed)
  then show ?thesis using o by (simp add: ordered_def tickets_def assignLineMap_def)
next
  case Dispose
  then show ?thesis using o by (simp add: ordered_def)
qed

lemma foldl_step_ordered: "ordered s \<Longrightarrow> ordered (foldl (step strip) s evs)"
  by (induction evs arbitrary: s) (simp_all add: step_ordered)

lemma run_ordered: "ordered (run strip evs)"
  unfolding run_def by (rule foldl_step_ordered) (simp add: ordered_def tickets_def init_def)

lemma runNextMatcher_defined:
  "matchers s \<noteq> [] \<Longrightarrow> \<exists>c s'. runNextMatcher s inp = Inr (c, s')"
  by (auto simp: runNextMatcher_def split: list.splits matcher.splits option.splits if_splits)

lemma runNextMatcher_length:
  "runNextMatcher s inp = Inr (c, s') \<Longrightarrow>
     length (matchers s) = (if c then Suc (length (matchers s')) else length (matchers s'))"
  by (auto simp: runNextMatcher_def split: list.splits matcher.splits option.splits if_splits)

lemma runNextMatcher_buffer:
  "runNextMatcher (s\<lparr>outputBuffer := b\<rparr>) inp =
     (case runNextMatcher s inp of Inl e \<Rightarrow> Inl e | Inr (c, s') \<Rightarrow> Inr (c, s'\<lparr>outputBuffer := b\<rparr>))"
  by (auto simp: runNextMatcher_def split: list.splits matcher.splits option.splits if_splits)

lemma runNextMatcher_queued:
  "matchers s \<noteq> [] \<Longrightarrow>
   runNextMatcher (s\<lparr>matchers := matchers s @ [m], promises := n\<rparr>) inp =
     (case runNextMatcher s inp of
        Inl e \<Rightarrow> Inl e
      | Inr (c, s') \<Rightarrow> Inr (c, s'\<lparr>matchers := matchers s' @ [m], promises := n\<rparr>))"
  by (auto simp: runNextMatcher_def split: list.splits matcher.splits option.splits if_splits)

lemma foldl_acceptData_idle:
  "matchers s = [] \<Longrightarrow> foldl acceptData s ls = s\<lparr>outputBuffer := outputBuffer s @ ls\<rparr>"
  by (induction ls arbitrary: s) (simp_all add: acceptData_def)


lemma acceptData_run:
  "runNextMatcher s l = Inr (c, s') \<Longrightarrow> acceptData s l = s'"
  by (auto simp: acceptData_def runNextMatcher_def split: list.splits)

lemma acceptData_promises: "promises (acceptData s l) = promises s"
  by (auto simp: acceptData_def split: sum.splits dest: runNextMatcher_tickets)

lemma foldl_acceptData_promises: "promises (foldl acceptData s ls) = promises s"
  by (induction ls arbitrary: s) (simp_all add: acceptData_promises)

text \<open>With one matcher queued, draining a backlog is hearing its lines one by one.\<close>

lemma drainBuffer_single:
  "length (matchers u) = 1 \<Longrightarrow>
   drainBuffer (u\<lparr>outputBuffer := ls\<rparr>) = foldl acceptData (u\<lparr>outputBuffer := []\<rparr>) ls"
proof (induction ls arbitrary: u)
  case Nil
  then show ?case by (simp add: drainBuffer_Nil)
next
  case (Cons l ls)
  have ne: "matchers u \<noteq> []" using Cons.prems by auto
  obtain c u' where run: "runNextMatcher u l = Inr (c, u')"
    using runNextMatcher_defined[OF ne] by blast
  have len: "length (matchers u) = (if c then Suc (length (matchers u')) else length (matchers u'))"
    using runNextMatcher_length[OF run] .
  have step: "acceptData (u\<lparr>outputBuffer := []\<rparr>) l = u'\<lparr>outputBuffer := []\<rparr>"
    by (rule acceptData_run[where c = c]) (simp add: runNextMatcher_buffer run)
  show ?case
  proof (cases c)
    case True
    have idle: "matchers (u'\<lparr>outputBuffer := []\<rparr>) = []" using len True Cons.prems by simp
    have "drainBuffer (u\<lparr>outputBuffer := l # ls\<rparr>) = u'\<lparr>outputBuffer := ls\<rparr>"
      using True by (simp add: drainBuffer_Cons[where l = l and ls = ls] runNextMatcher_buffer run)
    also have "\<dots> = foldl acceptData (u'\<lparr>outputBuffer := []\<rparr>) ls"
      by (simp add: foldl_acceptData_idle[OF idle])
    finally show ?thesis using step by simp
  next
    case False
    have one: "length (matchers u') = 1" using len False Cons.prems by simp
    have "drainBuffer (u\<lparr>outputBuffer := l # ls\<rparr>) = drainBuffer (u'\<lparr>outputBuffer := ls\<rparr>)"
      using False by (simp add: drainBuffer_Cons[where l = l and ls = ls] runNextMatcher_buffer run)
    also have "\<dots> = foldl acceptData (u'\<lparr>outputBuffer := []\<rparr>) ls"
      by (rule Cons.IH[OF one])
    finally show ?thesis using step by simp
  qed
qed

text \<open>Registering after the lines have arrived is registering before they arrive.\<close>

lemma executor_foldl_acceptData:
  "outputBuffer t = [] \<Longrightarrow>
   executor m (foldl acceptData t ls) = foldl acceptData (executor m t) ls"
proof (induction ls arbitrary: t)
  case Nil
  then show ?case by simp
next
  case (Cons l ls)
  show ?case
  proof (cases "matchers t = []")
    case True
    let ?u = "t\<lparr>matchers := [m], promises := Suc (promises t)\<rparr>"
    have u: "?u\<lparr>outputBuffer := []\<rparr> = ?u" using Cons.prems by simp
    have f: "foldl acceptData t (l # ls) = t\<lparr>outputBuffer := l # ls\<rparr>"
      unfolding foldl_acceptData_idle[OF True] using Cons.prems by simp
    have "executor m (foldl acceptData t (l # ls)) = drainBuffer (?u\<lparr>outputBuffer := l # ls\<rparr>)"
      unfolding f using True by (cases t) (simp add: executor_def)
    also have "\<dots> = foldl acceptData (?u\<lparr>outputBuffer := []\<rparr>) (l # ls)"
      by (rule drainBuffer_single) simp
    also have "?u\<lparr>outputBuffer := []\<rparr> = executor m t"
      using True Cons.prems by (simp add: executor_def drainBuffer_Nil)
    finally show ?thesis .
  next
    case False
    obtain c t' where run: "runNextMatcher t l = Inr (c, t')"
      using runNextMatcher_defined[OF False] by blast
    have b': "outputBuffer t' = []" using runNextMatcher_outputBuffer[OF run] Cons.prems by simp
    have p': "promises t' = promises t" using runNextMatcher_tickets[OF run] by simp
    have e: "executor m t = t\<lparr>matchers := matchers t @ [m], promises := Suc (promises t)\<rparr>"
      using Cons.prems by (simp add: executor_def drainBuffer_Nil)
    have e': "executor m t' = t'\<lparr>matchers := matchers t' @ [m], promises := Suc (promises t)\<rparr>"
      using b' p' by (simp add: executor_def drainBuffer_Nil)
    have "acceptData (executor m t) l = executor m t'"
      unfolding e e'
      by (rule acceptData_run[where c = c]) (simp add: runNextMatcher_queued[OF False] run)
    then show ?thesis using Cons.IH[OF b'] acceptData_run[OF run] by simp
  qed
qed

lemma acceptData_backlogFree: "backlogFree s \<Longrightarrow> backlogFree (acceptData s l)"
proof (cases "matchers s = []")
  case True
  then show ?thesis by (simp add: acceptData_def backlogFree_def)
next
  case False
  assume bf: "backlogFree s"
  obtain c s' where run: "runNextMatcher s l = Inr (c, s')"
    using runNextMatcher_defined[OF False] by blast
  show ?thesis using bf False runNextMatcher_outputBuffer[OF run] acceptData_run[OF run]
    by (simp add: backlogFree_def)
qed

lemma foldl_acceptData_backlogFree: "backlogFree s \<Longrightarrow> backlogFree (foldl acceptData s ls)"
  by (induction ls arbitrary: s) (simp_all add: acceptData_backlogFree)

lemma executor_backlog:
  assumes "backlogFree s"
  shows "executor m s = foldl acceptData (executor m (s\<lparr>outputBuffer := []\<rparr>)) (outputBuffer s)"
proof (cases "matchers s = []")
  case True
  have "s = foldl acceptData (s\<lparr>outputBuffer := []\<rparr>) (outputBuffer s)"
    using True by (simp add: foldl_acceptData_idle)
  then have "executor m s = executor m (foldl acceptData (s\<lparr>outputBuffer := []\<rparr>) (outputBuffer s))"
    by simp
  then show ?thesis by (simp add: executor_foldl_acceptData)
next
  case False
  then have "outputBuffer s = []" using assms by (simp add: backlogFree_def)
  then have eq: "s\<lparr>outputBuffer := []\<rparr> = s" by simp
  show ?thesis using \<open>outputBuffer s = []\<close> by (simp add: eq)
qed

lemma executor_backlogFree:
  assumes "backlogFree s" shows "backlogFree (executor m s)"
proof -
  have "backlogFree (executor m (s\<lparr>outputBuffer := []\<rparr>))"
    by (simp add: executor_def drainBuffer_Nil backlogFree_def)
  then show ?thesis
    unfolding executor_backlog[OF assms] by (rule foldl_acceptData_backlogFree)
qed

lemma executor_outputBuffer_Nil: "outputBuffer t = [] \<Longrightarrow> outputBuffer (executor m t) = []"
  by (simp add: executor_def drainBuffer_Nil)

lemma matchResponse_foldl_acceptData:
  "outputBuffer t = [] \<Longrightarrow>
   matchResponse ps (foldl acceptData t ls) =
     (fst (matchResponse ps t), foldl acceptData (snd (matchResponse ps t)) ls)"
proof (induction ps arbitrary: t)
  case Nil
  then show ?case by simp
next
  case (Cons p ps)
  let ?m = "SingleMatcher p (promises t)"
  have "matchResponse ps (foldl acceptData (executor ?m t) ls) =
          (fst (matchResponse ps (executor ?m t)), foldl acceptData (snd (matchResponse ps (executor ?m t))) ls)"
    by (rule Cons.IH) (rule executor_outputBuffer_Nil[OF Cons.prems])
  then show ?case
    by (simp add: foldl_acceptData_promises executor_foldl_acceptData[OF Cons.prems] split: prod.splits)
qed

lemma matchResponse_backlog:
  assumes "backlogFree s"
  shows "matchResponse ps s =
     (fst (matchResponse ps (s\<lparr>outputBuffer := []\<rparr>)),
      foldl acceptData (snd (matchResponse ps (s\<lparr>outputBuffer := []\<rparr>))) (outputBuffer s))"
proof (cases "matchers s = []")
  case True
  have s: "foldl acceptData (s\<lparr>outputBuffer := []\<rparr>) (outputBuffer s) = s"
    using True by (simp add: foldl_acceptData_idle)
  show ?thesis
    using matchResponse_foldl_acceptData[of "s\<lparr>outputBuffer := []\<rparr>" ps "outputBuffer s"]
    unfolding s by simp
next
  case False
  then have b: "outputBuffer s = []" using assms by (simp add: backlogFree_def)
  then have eq: "s\<lparr>outputBuffer := []\<rparr> = s" by simp
  show ?thesis unfolding eq b by simp
qed

lemma matchResponse_backlogFree: "backlogFree s \<Longrightarrow> backlogFree (snd (matchResponse ps s))"
proof (induction ps arbitrary: s)
  case Nil
  then show ?case by simp
next
  case (Cons p ps)
  show ?case unfolding matchResponse_Cons
    by (rule Cons.IH) (rule executor_backlogFree[OF Cons.prems])
qed

lemma step_backlogFree:
  assumes b: "backlogFree s" shows "backlogFree (step strip s ev)"
proof (cases ev)
  case Initialize
  have "backlogFree (sendCommand ''r'' [] (s\<lparr>dataListener := True\<rparr>))"
    using b by (simp add: backlogFree_def sendCommand_def)
  then have "backlogFree (snd (initialize s))"
    unfolding initialize_def by (rule matchResponse_backlogFree)
  then show ?thesis using Initialize by simp
next
  case (Output raw)
  have "backlogFree (s\<lparr>emitted := emitted s @ [raw]\<rparr>)" using b by (simp add: backlogFree_def)
  then show ?thesis using Output b by (simp add: onData_def acceptData_backlogFree)
next
  case (SendCommand command args)
  then show ?thesis using b by (simp add: backlogFree_def sendCommand_def)
next
  case (MatchResponse ps)
  then show ?thesis using b by (simp add: matchResponse_backlogFree)
next
  case (MatchUntilInteractive p)
  then show ?thesis using b by (simp add: matchUntilInteractive_def executor_backlogFree)
next
  case (AssignLineMap path parsed)
  then show ?thesis using b by (simp add: backlogFree_def assignLineMap_def)
next
  case Dispose
  then show ?thesis using b by (simp add: backlogFree_def)
qed

lemma foldl_step_backlogFree: "backlogFree s \<Longrightarrow> backlogFree (foldl (step strip) s evs)"
  by (induction evs arbitrary: s) (simp_all add: step_backlogFree)

lemma run_backlogFree: "backlogFree (run strip evs)"
  unfolding run_def by (rule foldl_step_backlogFree) (simp add: backlogFree_def init_def)

text \<open>
  Claim C6. In every state a session reaches, the backlog is empty or no expectation is
  pending, and it stays so when one more line is heard. A line heard while no
  expectation is pending is appended to the backlog. Registering expectations
  (\<^verbatim>\<open>matchResponse\<close> or \<^verbatim>\<open>matchUntilInteractive\<close>) over a backlog gives the state
  reached by registering them over an empty backlog and then hearing the lines of the
  backlog one by one, oldest first.
\<close>

theorem backlog_kept_in_order:
  "(matchers (run stripAnsi evs) = [] \<or> outputBuffer (run stripAnsi evs) = []) \<and>
   (matchers (run stripAnsi evs) = [] \<longrightarrow>
      acceptData (run stripAnsi evs) l =
        (run stripAnsi evs)\<lparr>outputBuffer := outputBuffer (run stripAnsi evs) @ [l]\<rparr>) \<and>
   (matchers (acceptData (run stripAnsi evs) l) = [] \<or>
      outputBuffer (acceptData (run stripAnsi evs) l) = []) \<and>
   matchResponse ps (run stripAnsi evs) =
     (fst (matchResponse ps ((run stripAnsi evs)\<lparr>outputBuffer := []\<rparr>)),
      foldl acceptData (snd (matchResponse ps ((run stripAnsi evs)\<lparr>outputBuffer := []\<rparr>)))
        (outputBuffer (run stripAnsi evs))) \<and>
   matchUntilInteractive p (run stripAnsi evs) =
     (fst (matchUntilInteractive p ((run stripAnsi evs)\<lparr>outputBuffer := []\<rparr>)),
      foldl acceptData (snd (matchUntilInteractive p ((run stripAnsi evs)\<lparr>outputBuffer := []\<rparr>)))
        (outputBuffer (run stripAnsi evs)))"
proof -
  let ?s = "run stripAnsi evs"
  have bf: "backlogFree ?s" by (rule run_backlogFree)
  have 1: "matchers ?s = [] \<or> outputBuffer ?s = []" using bf by (simp add: backlogFree_def)
  have 2: "matchers ?s = [] \<longrightarrow> acceptData ?s l = ?s\<lparr>outputBuffer := outputBuffer ?s @ [l]\<rparr>"
    by (simp add: acceptData_def)
  have 3: "matchers (acceptData ?s l) = [] \<or> outputBuffer (acceptData ?s l) = []"
    using acceptData_backlogFree[OF bf, of l] by (simp add: backlogFree_def)
  have 4: "matchResponse ps ?s =
     (fst (matchResponse ps (?s\<lparr>outputBuffer := []\<rparr>)),
      foldl acceptData (snd (matchResponse ps (?s\<lparr>outputBuffer := []\<rparr>))) (outputBuffer ?s))"
    by (rule matchResponse_backlog[OF bf])
  have 5: "matchUntilInteractive p ?s =
     (fst (matchUntilInteractive p (?s\<lparr>outputBuffer := []\<rparr>)),
      foldl acceptData (snd (matchUntilInteractive p (?s\<lparr>outputBuffer := []\<rparr>))) (outputBuffer ?s))"
    using executor_backlog[OF bf, of "MultiMatcher p (promises ?s) []"]
    by (simp add: matchUntilInteractive_def)
  show ?thesis using 1 2 3 4 5 by blast
qed

lemma runNextMatcher_head:
  "runNextMatcher s inp = Inr (c, s') \<Longrightarrow>
     (\<not> c \<and> settled s' = settled s \<and> map resolve (matchers s') = map resolve (matchers s) \<and>
        tl (matchers s') = tl (matchers s)) \<or>
     (c \<and> (\<exists>v. settled s' = settled s @ [(resolve (hd (matchers s)), v)]) \<and>
        matchers s' = tl (matchers s))"
  by (auto simp: runNextMatcher_def split: list.splits matcher.splits option.splits if_splits)

text \<open>The equations that evaluate a run of the queue on given texts.\<close>

lemmas queue_eval =
  run_def init_def initialize_def executor_def drainBuffer.simps onData_def acceptData_def
  runNextMatcher_def sendCommand_def literal_def interactive_def carriageReturn_def
  matchUntilInteractive_def

theorem backlog_kept_in_order_witness:
  "matchers (run (\<lambda>x. x) [Initialize, Output (''A ='' @ [CR, LF]), Output ''> '', Output ''x'', Output ''y'']) = [] \<and>
   outputBuffer (run (\<lambda>x. x) [Initialize, Output (''A ='' @ [CR, LF]), Output ''> '', Output ''x'', Output ''y'']) = [''x'', ''y''] \<and>
   outputBuffer (acceptData (run (\<lambda>x. x) [Initialize, Output (''A ='' @ [CR, LF]), Output ''> '', Output ''x'', Output ''y'']) ''z'') = [''x'', ''y'', ''z'']"
proof -
  let ?s = "run (\<lambda>x. x) [Initialize, Output (''A ='' @ [CR, LF]), Output ''> '', Output ''x'', Output ''y'']"
  have m: "matchers ?s = []" by (simp add: queue_eval)
  have b: "outputBuffer ?s = [''x'', ''y'']" by (simp add: queue_eval)
  have "acceptData ?s ''z'' = ?s\<lparr>outputBuffer := outputBuffer ?s @ [''z'']\<rparr>"
    using backlog_kept_in_order[of "\<lambda>x. x" "[Initialize, Output (''A ='' @ [CR, LF]), Output ''> '', Output ''x'', Output ''y'']" "''z''"] m
    by blast
  then have "outputBuffer (acceptData ?s ''z'') = outputBuffer ?s @ [''z'']" by simp
  then show ?thesis using m b by simp
qed

text \<open>Lines that serve the head of the queue resolve it with its value and remove it.\<close>

lemma single_noise:
  "matchers u = SingleMatcher p r # rest \<Longrightarrow> list_all (\<lambda>n. p n = None) noise \<Longrightarrow>
   foldl acceptData u noise = u"
  by (induction noise) (simp_all add: acceptData_def runNextMatcher_def)

lemma single_served:
  assumes "matchers u = SingleMatcher p r # rest" and "list_all (\<lambda>n. p n = None) noise"
    and "p l = Some m"
  shows "foldl acceptData u (noise @ [l]) = u\<lparr>matchers := rest, settled := settled u @ [(r, One m)]\<rparr>"
  using assms by (simp add: single_noise[OF assms(1,2)] acceptData_def runNextMatcher_def)

lemma multi_body:
  "matchers u = MultiMatcher p r ms # rest \<Longrightarrow> ms \<noteq> [] \<Longrightarrow>
   list_all (\<lambda>(l, mo). p l = mo \<and> interactive l = None) body \<Longrightarrow>
   foldl acceptData u (map fst body) =
     u\<lparr>matchers := MultiMatcher p r (ms @ List.map_filter snd body) # rest\<rparr>"
proof (induction body arbitrary: u ms)
  case Nil
  then show ?case by (simp add: map_filter_simps)
next
  case (Cons c body)
  obtain l mo where c: "c = (l, mo)" by (cases c)
  have pl: "p l = mo" and il: "interactive l = None" using Cons.prems(3) c by simp_all
  have rest: "list_all (\<lambda>(l, mo). p l = mo \<and> interactive l = None) body"
    using Cons.prems(3) by simp
  show ?case
  proof (cases mo)
    case None
    have step: "acceptData u l = u"
      using Cons.prems(1,2) pl il None by (simp add: acceptData_def runNextMatcher_def)
    show ?thesis using Cons.IH[OF Cons.prems(1,2) rest] step c None
      by (simp add: map_filter_simps)
  next
    case (Some m)
    have step: "acceptData u l = u\<lparr>matchers := MultiMatcher p r (ms @ [m]) # rest\<rparr>"
      using Cons.prems(1,2) pl il Some by (simp add: acceptData_def runNextMatcher_def)
    have "foldl acceptData (u\<lparr>matchers := MultiMatcher p r (ms @ [m]) # rest\<rparr>) (map fst body) =
        (u\<lparr>matchers := MultiMatcher p r (ms @ [m]) # rest\<rparr>)
          \<lparr>matchers := MultiMatcher p r ((ms @ [m]) @ List.map_filter snd body) # rest\<rparr>"
      by (rule Cons.IH[OF _ _ rest]) simp_all
    then show ?thesis using step c Some by (simp add: map_filter_simps)
  qed
qed

lemma multi_served:
  assumes q: "matchers u = MultiMatcher p r [] # rest"
    and echo: "carriageReturn echo \<noteq> None"
    and body: "list_all (\<lambda>(l, mo). p l = mo \<and> interactive l = None) body"
    and prompt: "interactive prompt \<noteq> None"
  shows "foldl acceptData u (echo # map fst body @ [prompt]) =
     u\<lparr>matchers := rest, settled := settled u @ [(r, Many (List.map_filter snd body))]\<rparr>"
proof -
  obtain cr where cr: "carriageReturn echo = Some cr" using echo by auto
  let ?u1 = "u\<lparr>matchers := MultiMatcher p r [cr] # rest\<rparr>"
  let ?u2 = "?u1\<lparr>matchers := MultiMatcher p r ([cr] @ List.map_filter snd body) # rest\<rparr>"
  have e: "acceptData u echo = ?u1"
    using q cr by (simp add: acceptData_def runNextMatcher_def)
  have b: "foldl acceptData ?u1 (map fst body) = ?u2"
    by (rule multi_body[OF _ _ body]) simp_all
  have p: "acceptData ?u2 prompt =
      ?u2\<lparr>matchers := rest, settled := settled ?u2 @ [(r, Many (tl ([cr] @ List.map_filter snd body)))]\<rparr>"
    using prompt by (auto simp: acceptData_def runNextMatcher_def)
  have "foldl acceptData u (echo # map fst body @ [prompt]) =
      acceptData (foldl acceptData (acceptData u echo) (map fst body)) prompt"
    by simp
  also have "\<dots> = acceptData ?u2 prompt" unfolding e b ..
  finally show ?thesis unfolding p by simp
qed

lemma exchange_served:
  "matchers u = queued x r # rest \<Longrightarrow> wellServed x \<Longrightarrow>
   foldl acceptData u (linesOf x) =
     u\<lparr>matchers := rest, settled := settled u @ [(r, resolvedWith x)]\<rparr>"
proof (cases x)
  case (SingleExchange p noise l m)
  assume "matchers u = queued x r # rest" "wellServed x"
  then show ?thesis using SingleExchange single_served[of u p r rest noise l m] by simp
next
  case (MultiExchange p echo body prompt)
  assume "matchers u = queued x r # rest" "wellServed x"
  then show ?thesis using MultiExchange multi_served[of u p r rest echo body prompt] by simp
qed

lemma exchanges_served:
  "matchers u = map2 queued xs rs \<Longrightarrow> length rs = length xs \<Longrightarrow> list_all wellServed xs \<Longrightarrow>
   foldl acceptData u (concat (map linesOf xs)) =
     u\<lparr>matchers := [], settled := settled u @ zip rs (map resolvedWith xs)\<rparr>"
proof (induction xs arbitrary: u rs)
  case Nil
  then show ?case by simp
next
  case (Cons x xs)
  obtain r rs' where rs: "rs = r # rs'" using Cons.prems(2) by (cases rs) simp_all
  let ?u1 = "u\<lparr>matchers := map2 queued xs rs', settled := settled u @ [(r, resolvedWith x)]\<rparr>"
  have h: "foldl acceptData u (linesOf x) = ?u1"
    by (rule exchange_served) (use Cons.prems rs in simp_all)
  have "foldl acceptData ?u1 (concat (map linesOf xs)) =
      ?u1\<lparr>matchers := [], settled := settled ?u1 @ zip rs' (map resolvedWith xs)\<rparr>"
    by (rule Cons.IH) (use Cons.prems rs in simp_all)
  then show ?case using h rs by simp
qed

lemma registers_idle:
  "outputBuffer s = [] \<Longrightarrow>
   foldl (step strip) s (map registers xs) =
     s\<lparr>matchers := matchers s @ map2 queued xs [promises s..<promises s + length xs],
       promises := promises s + length xs\<rparr>"
proof (induction xs arbitrary: s)
  case Nil
  then show ?case by simp
next
  case (Cons x xs)
  let ?s1 = "s\<lparr>matchers := matchers s @ [queued x (promises s)], promises := Suc (promises s)\<rparr>"
  have one: "step strip s (registers x) = ?s1"
    using Cons.prems by (cases x) (simp_all add: matchUntilInteractive_def executor_def drainBuffer_Nil)
  have "foldl (step strip) ?s1 (map registers xs) =
      ?s1\<lparr>matchers := matchers ?s1 @ map2 queued xs [promises ?s1..<promises ?s1 + length xs],
          promises := promises ?s1 + length xs\<rparr>"
    by (rule Cons.IH) (use Cons.prems in simp)
  moreover have "[promises s..<promises s + length (x # xs)] =
      promises s # [Suc (promises s)..<Suc (promises s) + length xs]"
    by (simp add: upt_conv_Cons del: upt_Suc)
  ultimately show ?case using one by (simp del: upt_Suc)
qed

lemma registers_foldl_acceptData:
  "outputBuffer t = [] \<Longrightarrow>
   foldl (step strip) (foldl acceptData t ls) (map registers xs) =
     foldl acceptData (foldl (step strip) t (map registers xs)) ls"
proof (induction xs arbitrary: t)
  case Nil
  then show ?case by simp
next
  case (Cons x xs)
  have comm: "step strip (foldl acceptData t ls) (registers x) = foldl acceptData (step strip t (registers x)) ls"
    using Cons.prems
    by (cases x)
       (simp_all add: matchUntilInteractive_def executor_foldl_acceptData foldl_acceptData_promises)
  have b: "outputBuffer (step strip t (registers x)) = []"
    using Cons.prems
    by (cases x) (simp_all add: matchUntilInteractive_def executor_outputBuffer_Nil)
  show ?case using Cons.IH[OF b] comm by simp
qed

text \<open>
  Claim C4. In every state a session reaches, the promises resolved so far, in the order
  of their resolution, followed by the promises of the queued matchers, in the order of
  the queue, are the promises in the order of their registration: none is resolved
  twice, and none before an earlier one. A line that is heard either resolves nothing
  and leaves the queue behind its head as it is, or resolves the head of the queue and
  removes it. When expectations, single or multi, are registered while the queue and the
  backlog are empty and the lines that serve them are heard in the order of the
  registrations, every one of them is resolved, once, in the order of registration and
  with its value, and the queue is empty again; the same state is reached when the
  lines wait in the backlog at the registrations.
\<close>

theorem expectations_resolved_once_in_order:
  "map fst (settled (run stripAnsi evs)) @ map resolve (matchers (run stripAnsi evs)) =
     [0..<promises (run stripAnsi evs)] \<and>
   distinct (map fst (settled (run stripAnsi evs))) \<and>
   ((settled (acceptData (run stripAnsi evs) l) = settled (run stripAnsi evs) \<and>
     map resolve (matchers (acceptData (run stripAnsi evs) l)) = map resolve (matchers (run stripAnsi evs)) \<and>
     tl (matchers (acceptData (run stripAnsi evs) l)) = tl (matchers (run stripAnsi evs))) \<or>
    ((\<exists>v. settled (acceptData (run stripAnsi evs) l) =
            settled (run stripAnsi evs) @ [(resolve (hd (matchers (run stripAnsi evs))), v)]) \<and>
     matchers (acceptData (run stripAnsi evs) l) = tl (matchers (run stripAnsi evs)))) \<and>
   (matchers (run stripAnsi evs) = [] \<and> outputBuffer (run stripAnsi evs) = [] \<and>
    list_all wellServed xs \<longrightarrow>
      settled (foldl acceptData (foldl (step stripAnsi) (run stripAnsi evs) (map registers xs))
                 (concat (map linesOf xs))) =
        settled (run stripAnsi evs) @
          zip [promises (run stripAnsi evs)..<promises (run stripAnsi evs) + length xs]
              (map resolvedWith xs) \<and>
      matchers (foldl acceptData (foldl (step stripAnsi) (run stripAnsi evs) (map registers xs))
                 (concat (map linesOf xs))) = [] \<and>
      foldl (step stripAnsi) ((run stripAnsi evs)\<lparr>outputBuffer := concat (map linesOf xs)\<rparr>)
          (map registers xs) =
        foldl acceptData (foldl (step stripAnsi) (run stripAnsi evs) (map registers xs))
          (concat (map linesOf xs)))"
proof -
  let ?s = "run stripAnsi evs"
  have o: "map fst (settled ?s) @ map resolve (matchers ?s) = [0..<promises ?s]"
    using run_ordered[of stripAnsi evs] by (simp add: ordered_def tickets_def)
  have "distinct (map fst (settled ?s) @ map resolve (matchers ?s))"
    unfolding o by simp
  then have d: "distinct (map fst (settled ?s))" by simp
  have h: "(settled (acceptData ?s l) = settled ?s \<and>
     map resolve (matchers (acceptData ?s l)) = map resolve (matchers ?s) \<and>
     tl (matchers (acceptData ?s l)) = tl (matchers ?s)) \<or>
    ((\<exists>v. settled (acceptData ?s l) = settled ?s @ [(resolve (hd (matchers ?s)), v)]) \<and>
     matchers (acceptData ?s l) = tl (matchers ?s))"
  proof (cases "matchers ?s = []")
    case True
    then show ?thesis by (simp add: acceptData_def)
  next
    case False
    obtain c s' where r: "runNextMatcher ?s l = Inr (c, s')"
      using runNextMatcher_defined[OF False] by blast
    show ?thesis using runNextMatcher_head[OF r] unfolding acceptData_run[OF r] by blast
  qed
  have served: "settled (foldl acceptData (foldl (step stripAnsi) ?s (map registers xs))
                 (concat (map linesOf xs))) =
        settled ?s @ zip [promises ?s..<promises ?s + length xs] (map resolvedWith xs) \<and>
      matchers (foldl acceptData (foldl (step stripAnsi) ?s (map registers xs))
                 (concat (map linesOf xs))) = [] \<and>
      foldl (step stripAnsi) (?s\<lparr>outputBuffer := concat (map linesOf xs)\<rparr>) (map registers xs) =
        foldl acceptData (foldl (step stripAnsi) ?s (map registers xs)) (concat (map linesOf xs))"
    if idle: "matchers ?s = []" "outputBuffer ?s = []" and ws: "list_all wellServed xs"
  proof -
    let ?rs = "[promises ?s..<promises ?s + length xs]"
    let ?s1 = "?s\<lparr>matchers := matchers ?s @ map2 queued xs ?rs, promises := promises ?s + length xs\<rparr>"
    have reg: "foldl (step stripAnsi) ?s (map registers xs) = ?s1"
      by (rule registers_idle[OF idle(2)])
    have all: "foldl acceptData ?s1 (concat (map linesOf xs)) =
        ?s1\<lparr>matchers := [], settled := settled ?s1 @ zip ?rs (map resolvedWith xs)\<rparr>"
      by (rule exchanges_served[OF _ _ ws]) (use idle in simp_all)
    have b: "?s\<lparr>outputBuffer := concat (map linesOf xs)\<rparr> =
        foldl acceptData ?s (concat (map linesOf xs))"
      using idle by (simp add: foldl_acceptData_idle)
    have waiting: "foldl (step stripAnsi) (?s\<lparr>outputBuffer := concat (map linesOf xs)\<rparr>) (map registers xs) =
        foldl acceptData (foldl (step stripAnsi) ?s (map registers xs)) (concat (map linesOf xs))"
      unfolding b by (rule registers_foldl_acceptData[OF idle(2)])
    show ?thesis unfolding waiting unfolding reg all by simp
  qed
  show ?thesis using o d h served by blast
qed

theorem expectations_resolved_once_in_order_witness:
  "settled (foldl acceptData
      (foldl (step (\<lambda>x. x)) (run (\<lambda>x. x) [])
         [MatchResponse [literal ''A =''], MatchUntilInteractive (literal ''bp'')])
      [''noise'', ''A =00'', ''brl'' @ [CR, LF], ''bp 0100'', ''junk'', ''> '']) =
     [(0, One \<lparr>matched = ''A ='', index = 0, input = ''A =00'', groups = []\<rparr>),
      (1, Many [\<lparr>matched = ''bp'', index = 0, input = ''bp 0100'', groups = []\<rparr>])]"
  using expectations_resolved_once_in_order[of "\<lambda>x. x" "[]" _
      "[SingleExchange (literal ''A ='') [''noise''] ''A =00''
          \<lparr>matched = ''A ='', index = 0, input = ''A =00'', groups = []\<rparr>,
        MultiExchange (literal ''bp'') (''brl'' @ [CR, LF])
          [(''bp 0100'', Some \<lparr>matched = ''bp'', index = 0, input = ''bp 0100'', groups = []\<rparr>),
           (''junk'', None)] ''> '']"]
  by (simp add: run_def init_def literal_def interactive_def carriageReturn_def map_filter_simps)

text \<open>
  A multi matcher that holds a match already accumulates the matches of the lines that
  match its pattern and lack the prompt.
\<close>

lemma multi_accumulates:
  "matchers u = MultiMatcher p r ms # rest \<Longrightarrow> ms \<noteq> [] \<Longrightarrow>
   list_all (\<lambda>(l, m). p l = Some m \<and> interactive l = None) content \<Longrightarrow>
   foldl acceptData u (map fst content) =
     u\<lparr>matchers := MultiMatcher p r (ms @ map snd content) # rest\<rparr>"
proof (induction content arbitrary: u ms)
  case Nil
  then show ?case by simp
next
  case (Cons c content)
  obtain l m where c: "c = (l, m)" by (cases c)
  have pl: "p l = Some m" and il: "interactive l = None" using Cons.prems(3) c by simp_all
  have step: "acceptData u l = u\<lparr>matchers := MultiMatcher p r (ms @ [m]) # rest\<rparr>"
    using Cons.prems(1,2) pl il by (simp add: acceptData_def runNextMatcher_def)
  have "foldl acceptData (u\<lparr>matchers := MultiMatcher p r (ms @ [m]) # rest\<rparr>) (map fst content) =
        (u\<lparr>matchers := MultiMatcher p r (ms @ [m]) # rest\<rparr>)
          \<lparr>matchers := MultiMatcher p r ((ms @ [m]) @ map snd content) # rest\<rparr>"
    by (rule Cons.IH) (use Cons.prems(3) in simp_all)
  then show ?case using step c by simp
qed

lemma multi_registered:
  "matchers s = [] \<Longrightarrow> outputBuffer s = [] \<Longrightarrow>
   snd (matchUntilInteractive p s) =
     s\<lparr>matchers := [MultiMatcher p (promises s) []], promises := Suc (promises s)\<rparr>"
  by (simp add: matchUntilInteractive_def executor_def drainBuffer_Nil)

lemma multi_echo:
  "matchers u = MultiMatcher p r [] # rest \<Longrightarrow> carriageReturn echo = Some cr \<Longrightarrow>
   acceptData u echo = u\<lparr>matchers := MultiMatcher p r [cr] # rest\<rparr>"
  by (simp add: acceptData_def runNextMatcher_def)

lemma multi_prompt:
  "matchers u = MultiMatcher p r ms # rest \<Longrightarrow> ms \<noteq> [] \<Longrightarrow> interactive prompt \<noteq> None \<Longrightarrow>
   acceptData u prompt = u\<lparr>matchers := rest, settled := settled u @ [(r, Many (tl ms))]\<rparr>"
  by (auto simp: acceptData_def runNextMatcher_def)

text \<open>
  Claim C5. A multi expectation is registered while the queue and the backlog are empty.
  The lines are an echo (a line with a carriage return), then any number of content
  lines, each matching the pattern and without the prompt, then a line with the prompt.
  Before the prompt line nothing is resolved and the expectation stays queued; the
  prompt line resolves it with exactly the matches of the content lines, in order, the
  echo left out. The same holds when the lines wait in the backlog at registration.
\<close>

theorem multi_expectation_until_prompt:
  assumes idle: "matchers s = []" "outputBuffer s = []"
    and echo: "carriageReturn echo \<noteq> None"
    and content: "list_all (\<lambda>(l, m). p l = Some m \<and> interactive l = None) content"
    and prompt: "interactive prompt \<noteq> None"
  shows "(\<forall>k. settled (foldl acceptData (snd (matchUntilInteractive p s)) (take k (echo # map fst content))) = settled s \<and>
              map resolve (matchers (foldl acceptData (snd (matchUntilInteractive p s)) (take k (echo # map fst content)))) = [promises s]) \<and>
         settled (foldl acceptData (snd (matchUntilInteractive p s)) (echo # map fst content @ [prompt])) =
           settled s @ [(promises s, Many (map snd content))] \<and>
         matchers (foldl acceptData (snd (matchUntilInteractive p s)) (echo # map fst content @ [prompt])) = [] \<and>
         snd (matchUntilInteractive p (s\<lparr>outputBuffer := echo # map fst content @ [prompt]\<rparr>)) =
           foldl acceptData (snd (matchUntilInteractive p s)) (echo # map fst content @ [prompt])"
proof -
  let ?r = "promises s"
  let ?s1 = "s\<lparr>matchers := [MultiMatcher p ?r []], promises := Suc ?r\<rparr>"
  obtain cr where cr: "carriageReturn echo = Some cr" using echo by auto
  have reg: "snd (matchUntilInteractive p s) = ?s1" by (rule multi_registered[OF idle])
  have e: "acceptData ?s1 echo = ?s1\<lparr>matchers := [MultiMatcher p ?r [cr]]\<rparr>"
    by (rule multi_echo[OF _ cr]) simp
  have acc: "foldl acceptData (?s1\<lparr>matchers := [MultiMatcher p ?r [cr]]\<rparr>) (map fst c') =
      (?s1\<lparr>matchers := [MultiMatcher p ?r [cr]]\<rparr>)\<lparr>matchers := [MultiMatcher p ?r ([cr] @ map snd c')]\<rparr>"
    if "list_all (\<lambda>(l, m). p l = Some m \<and> interactive l = None) c'" for c'
    by (rule multi_accumulates[OF _ _ that]) simp_all
  have before: "settled (foldl acceptData ?s1 (take k (echo # map fst content))) = settled s \<and>
      map resolve (matchers (foldl acceptData ?s1 (take k (echo # map fst content)))) = [?r]" for k
  proof (cases k)
    case 0
    then show ?thesis by simp
  next
    case (Suc j)
    have t: "take j (map fst content) = map fst (take j content)" by (simp add: take_map)
    have "list_all (\<lambda>(l, m). p l = Some m \<and> interactive l = None) (take j content)"
      using content by (auto simp: list_all_iff dest: in_set_takeD)
    from acc[OF this] show ?thesis using Suc e t by simp
  qed
  have all: "foldl acceptData ?s1 (echo # map fst content @ [prompt]) =
      ?s1\<lparr>matchers := [], settled := settled s @ [(?r, Many (map snd content))]\<rparr>"
  proof -
    have "foldl acceptData ?s1 (echo # map fst content @ [prompt]) =
        acceptData (foldl acceptData (acceptData ?s1 echo) (map fst content)) prompt"
      by simp
    also have "\<dots> = acceptData (?s1\<lparr>matchers := [MultiMatcher p ?r ([cr] @ map snd content)]\<rparr>) prompt"
      unfolding e acc[OF content] by simp
    also have "\<dots> = (?s1\<lparr>matchers := [MultiMatcher p ?r ([cr] @ map snd content)]\<rparr>)
        \<lparr>matchers := [], settled := settled (?s1\<lparr>matchers := [MultiMatcher p ?r ([cr] @ map snd content)]\<rparr>) @
            [(?r, Many (tl ([cr] @ map snd content)))]\<rparr>"
      by (rule multi_prompt[OF _ _ prompt]) simp_all
    finally show ?thesis by simp
  qed
  have bf: "backlogFree (s\<lparr>outputBuffer := echo # map fst content @ [prompt]\<rparr>)"
    using idle by (simp add: backlogFree_def)
  have drained: "snd (matchUntilInteractive p (s\<lparr>outputBuffer := echo # map fst content @ [prompt]\<rparr>)) =
      foldl acceptData (snd (matchUntilInteractive p s)) (echo # map fst content @ [prompt])"
  proof -
    have eq: "s\<lparr>outputBuffer := []\<rparr> = s" using idle by simp
    show ?thesis
      using executor_backlog[OF bf, of "MultiMatcher p (promises s) []"]
      by (simp add: matchUntilInteractive_def eq)
  qed
  show ?thesis unfolding drained unfolding reg using before all by simp
qed


theorem multi_expectation_until_prompt_witness:
  "settled (foldl acceptData (snd (matchUntilInteractive (literal ''bp'') init))
      [''brl'' @ [CR, LF], ''bp 0100'', ''> '']) =
     [(0, Many [\<lparr>matched = ''bp'', index = 0, input = ''bp 0100'', groups = []\<rparr>])]"
  using multi_expectation_until_prompt[of init "''brl'' @ [CR, LF]" "literal ''bp''"
      "[(''bp 0100'', \<lparr>matched = ''bp'', index = 0, input = ''bp 0100'', groups = []\<rparr>)]" "''> ''"]
  by (simp add: init_def literal_def interactive_def carriageReturn_def)

section \<open>Properties of the operations\<close>






text \<open>
  Claim C8. When the process exits, \<^verbatim>\<open>terminate\<close> rejects with the exit code if it
  is not zero and resolves if it is zero; in both cases the session sends an
  \<^verbatim>\<open>ExitedEvent\<close> with that exit code after the \<^verbatim>\<open>TerminatedEvent\<close>.
\<close>

theorem terminate_surfaces_exit_code:
  "fst (terminate s (Some exitCode)) =
     (if exitCode \<noteq> 0 then Rejected (ThrownNumber exitCode) else Returned ()) \<and>
   fst (terminateRequest s (Some exitCode)) =
     [Response, TerminatedEvent, ExitedEvent (Number exitCode)] \<and>
   written (snd (terminate s (Some exitCode))) = written s @ [''exit'' @ [CR, LF]]"
  by (simp add: terminate_def terminateRequest_def sendCommand_def)

lemma nopLoop_negative: "bound \<le> 0 \<Longrightarrow> nopLoop i bound = map nop [i..bound - 1]"
proof (induction i bound rule: nopLoop.induct)
  case (1 i bound)
  show ?case
  proof (cases "i < bound")
    case True
    then have "i < 0" using "1.prems" by simp
    have "nopLoop i bound = nop i # nopLoop (i + 1) bound"
      using True \<open>i < 0\<close> by (simp add: nopLoop.simps[of i bound])
    also have "nopLoop (i + 1) bound = map nop [i + 1..bound - 1]"
      using "1.IH" True \<open>i < 0\<close> "1.prems" by simp
    also have "nop i # map nop [i + 1..bound - 1] = map nop [i..bound - 1]"
      using True by (simp add: upto_rec1[of i "bound - 1"])
    finally show ?thesis .
  next
    case False
    then show ?thesis by (simp add: nopLoop.simps[of i bound])
  qed
qed

text \<open>
  Claim C9. When the instruction list is set, the count is not negative and the start
  index plus the count is at most zero, \<^verbatim>\<open>disassemble\<close> returns the no-op records
  of the indices from the start index on, in increasing order, as many as the count and
  each with line \<open>-1\<close>, and leaves the runtime as it was: no command is written and
  no expectation is registered.
\<close>

theorem disassemble_below_zero:
  assumes "instructionList s = Some il"
    and "0 \<le> instructionCount"
    and "baseInstr il addr + instructionOffset + instructionCount \<le> 0"
  shows "disassemble addr instructionCount instructionOffset s heard =
           (Returned (map nop [baseInstr il addr + instructionOffset ..
                                baseInstr il addr + instructionOffset + instructionCount - 1]), s) \<and>
         length (map nop [baseInstr il addr + instructionOffset ..
                          baseInstr il addr + instructionOffset + instructionCount - 1]) = nat instructionCount \<and>
         list_all (\<lambda>x. line x = - 1) (map nop [baseInstr il addr + instructionOffset ..
                          baseInstr il addr + instructionOffset + instructionCount - 1])"
  using assms by (simp add: disassemble_def nopLoop_negative list_all_iff nop_def)

theorem disassemble_below_zero_witness:
  "disassemble 0x8000 2 (- 2)
     (init\<lparr>lineMap := Some [''8000'', ''8003'', ''8006''],
           instructionList := Some [Some 0x8000, Some 0x8003, Some 0x8006]\<rparr>) [] =
     (Returned [\<lparr>address = Some ''-2'', instruction = Some ''00        nop'', line = - 1\<rparr>,
                \<lparr>address = Some ''-1 '', instruction = Some ''00        nop'', line = - 1\<rparr>],
      init\<lparr>lineMap := Some [''8000'', ''8003'', ''8006''],
           instructionList := Some [Some 0x8000, Some 0x8003, Some 0x8006]\<rparr>)"
  using disassemble_below_zero[of "init\<lparr>lineMap := Some [''8000'', ''8003'', ''8006''],
           instructionList := Some [Some 0x8000, Some 0x8003, Some 0x8006]\<rparr>"
         "[Some 0x8000, Some 0x8003, Some 0x8006]" 2 "0x8000" "- 2" "[]"]
  by (simp add: baseInstr_def endAddress_def nop_def upto_rec1 toString16_def toHex.simps hexDigit_def)

section \<open>Properties of \<^verbatim>\<open>parseLst\<close>\<close>

lemma lstMatchAt_address: "lstMatchAt cs = Some (a, l) \<Longrightarrow> fourUpperHex a"
  by (auto simp: lstMatchAt_def fourUpperHex_def split: if_splits)

lemma lstSearch_address: "lstSearch cs = Some (a, l) \<Longrightarrow> fourUpperHex a"
proof (induction cs)
  case Nil
  then show ?case by (simp add: lstMatchAt_address)
next
  case (Cons c cs)
  then show ?case by (auto split: option.splits dest: lstMatchAt_address)
qed

lemma lstLoop_addresses:
  "list_all fourUpperHex lmap \<Longrightarrow> list_all fourUpperHex (fst (lstLoop ls lmap lastLine))"
proof (induction ls arbitrary: lmap lastLine)
  case Nil
  then show ?case by simp
next
  case (Cons l ls)
  show ?case
  proof (cases "lstSearch l")
    case None
    then show ?thesis using Cons by simp
  next
    case (Some g)
    obtain a t where g: "g = (a, t)" by (cases g)
    have "fourUpperHex a" using lstSearch_address Some g by blast
    then have "list_all fourUpperHex (a # lmap)" using Cons.prems by simp
    then have "list_all fourUpperHex (fst (lstLoop ls (a # lmap) (parseInt10 t)))"
      by (rule Cons.IH)
    then show ?thesis using Some g Cons.prems by simp
  qed
qed

lemma padLoop_addresses:
  "list_all fourUpperHex lmap \<Longrightarrow> list_all fourUpperHex (padLoop lmap lastLine)"
proof (induction lmap lastLine rule: padLoop.induct)
  case (1 lmap lastLine)
  show ?case
  proof (cases "lastLine > 1")
    case True
    have "fourUpperHex ''0000''" by (simp add: fourUpperHex_def isUpperHex_def)
    then have "list_all fourUpperHex (''0000'' # lmap)" using "1.prems" by simp
    then show ?thesis using "1.IH"[OF True] True by (simp add: padLoop.simps[of lmap lastLine])
  next
    case False
    then show ?thesis using "1.prems" by (simp add: padLoop.simps[of lmap lastLine])
  qed
qed

lemma padLoop_pads:
  "\<exists>k. padLoop lmap lastLine = replicate k ''0000'' @ lmap"
proof (induction lmap lastLine rule: padLoop.induct)
  case (1 lmap lastLine)
  show ?case
  proof (cases "lastLine > 1")
    case True
    then obtain k where "padLoop (''0000'' # lmap) (lastLine - 1) = replicate k ''0000'' @ ''0000'' # lmap"
      using "1.IH" by blast
    then have "padLoop lmap lastLine = replicate (Suc k) ''0000'' @ lmap"
      using True by (simp add: padLoop.simps[of lmap lastLine] replicate_app_Cons_same)
    then show ?thesis by blast
  next
    case False
    then have "padLoop lmap lastLine = replicate 0 ''0000'' @ lmap"
      by (simp add: padLoop.simps[of lmap lastLine])
    then show ?thesis by blast
  qed
qed

text \<open>
  Claim C10. When the listing can be read, \<^verbatim>\<open>parseLst\<close> resolves with an array whose
  every element is four upper-case hexadecimal digits: some number of entries
  \<^verbatim>\<open>0000\<close> in front of the addresses taken from the listing.
\<close>

theorem parseLst_entries:
  assumes "readFile (take (length asmPath - 3) asmPath @ ''lst'') = Inr data"
  shows "\<exists>lmap. parseLst readFile asmPath = Inr lmap \<and>
           (\<forall>a \<in> set lmap. length a = 4 \<and> list_all isUpperHex a) \<and>
           (\<exists>k. lmap = replicate k ''0000'' @ fst (lstLoop (rev (splitCRLF [] data)) [] (Some (- 1))))"
proof -
  obtain lmap lastLine where loop: "lstLoop (rev (splitCRLF [] data)) [] (Some (- 1)) = (lmap, lastLine)"
    by (cases "lstLoop (rev (splitCRLF [] data)) [] (Some (- 1))")
  have h: "list_all fourUpperHex lmap"
    using lstLoop_addresses[of "[]" "rev (splitCRLF [] data)" "Some (- 1)"] loop by simp
  show ?thesis
  proof (cases lastLine)
    case None
    have "parseLst readFile asmPath = Inr lmap" using assms loop None by (simp add: parseLst_def)
    moreover have "lmap = replicate 0 ''0000'' @ lmap" by simp
    ultimately show ?thesis using h loop by (auto simp: list_all_iff fourUpperHex_def)
  next
    case (Some n)
    have p: "parseLst readFile asmPath = Inr (padLoop lmap n)"
      using assms loop Some by (simp add: parseLst_def)
    have "list_all fourUpperHex (padLoop lmap n)" by (rule padLoop_addresses[OF h])
    then show ?thesis using p loop padLoop_pads[of lmap n]
      by (auto simp: list_all_iff fourUpperHex_def)
  qed
qed

theorem parseLst_entries_witness:
  "\<exists>lmap. parseLst (\<lambda>p. Inr (''0100 74 2'' @ [CR, LF] @ ''0102 75 3'')) ''prog.asm'' = Inr lmap \<and>
      (\<forall>a \<in> set lmap. length a = 4 \<and> list_all isUpperHex a) \<and>
      (\<exists>k. lmap = replicate k ''0000'' @
         fst (lstLoop (rev (splitCRLF [] (''0100 74 2'' @ [CR, LF] @ ''0102 75 3''))) [] (Some (- 1))))"
  using parseLst_entries[of "\<lambda>p. Inr (''0100 74 2'' @ [CR, LF] @ ''0102 75 3'')" "''prog.asm''"
      "''0100 74 2'' @ [CR, LF] @ ''0102 75 3''"]
  by simp

section \<open>Where the runtime departs from its description\<close>

text \<open>
  Claim C1. The listener hands each sanitized chunk whole to \<^verbatim>\<open>runNextMatcher\<close>,
  which is documented to take a single line; nothing splits a chunk into lines or joins
  chunks. The output \<^verbatim>\<open>A =00\r\n> \<close> resolves both expectations of
  \<^verbatim>\<open>initialize\<close> when it arrives as two chunks split after the line end; as one
  chunk it resolves the first only and the second stays queued; split inside
  \<^verbatim>\<open>A =\<close> it resolves none.
\<close>

theorem chunk_boundaries_change_resolution:
  "concat [''A =00'' @ [CR, LF], ''> ''] = concat [''A =00'' @ [CR, LF] @ ''> ''] \<and>
   concat [''A '', ''=00'' @ [CR, LF], ''> ''] = concat [''A =00'' @ [CR, LF] @ ''> ''] \<and>
   map fst (settled (foldl acceptData (snd (matchResponse [literal ''A ='', interactive] init))
      [''A =00'' @ [CR, LF], ''> ''])) = [0, 1] \<and>
   map fst (settled (foldl acceptData (snd (matchResponse [literal ''A ='', interactive] init))
      [''A =00'' @ [CR, LF] @ ''> ''])) = [0] \<and>
   map resolve (matchers (foldl acceptData (snd (matchResponse [literal ''A ='', interactive] init))
      [''A =00'' @ [CR, LF] @ ''> ''])) = [1] \<and>
   settled (foldl acceptData (snd (matchResponse [literal ''A ='', interactive] init))
      [''A '', ''=00'' @ [CR, LF], ''> '']) = []"
  by (simp add: queue_eval)

text \<open>
  Claim C2. For a line at or beyond the length of the line map,
  \<^verbatim>\<open>setBreakpoints\<close> reads \<^verbatim>\<open>lineMap[lineMap.length]\<close>, one past the final entry:
  the address is \<^verbatim>\<open>undefined\<close>. With the map \<^verbatim>\<open>0000, 0002, 0004\<close> and line 3
  the command written is \<^verbatim>\<open>bron\<close> with an empty argument and the line returned is
  \<open>-1\<close>.
\<close>

theorem breakpoint_beyond_map_is_undefined:
  "breakpointAddresses lmap [int (length lmap) + int k] = [None] \<and>
   written (snd (setBreakpoints readFile path [3] (init\<lparr>lineMap := Some [''0000'', ''0002'', ''0004'']\<rparr>)
      [''> '', ''> ''])) = [''brc'' @ [CR, LF], ''bron '' @ [CR, LF]] \<and>
   fst (setBreakpoints readFile path [3] (init\<lparr>lineMap := Some [''0000'', ''0002'', ''0004'']\<rparr>)
      [''> '', ''> '']) = Returned [- 1]"
proof -
  have a: "breakpointAddresses lmap [int (length lmap) + int k] = [None]"
    by (simp add: breakpointAddresses_def at_def)
  have b: "breakpointAddresses [''0000'', ''0002'', ''0004''] [3] = [None]"
    by (simp add: breakpointAddresses_def at_def)
  have w: "written (snd (setBreakpoints readFile path [3] (init\<lparr>lineMap := Some [''0000'', ''0002'', ''0004'']\<rparr>)
      [''> '', ''> ''])) = [''brc'' @ [CR, LF], ''bron '' @ [CR, LF]]"
    by (simp add: setBreakpoints_def b queue_eval awaitAll_def assignLineMap_def split: prod.splits option.splits)
  have r: "fst (setBreakpoints readFile path [3] (init\<lparr>lineMap := Some [''0000'', ''0002'', ''0004'']\<rparr>)
      [''> '', ''> '']) = Returned [- 1]"
    by (simp add: setBreakpoints_def b queue_eval awaitAll_def assignLineMap_def lastIndexOfAddress_def)
  show ?thesis using a w r by simp
qed

text \<open>
  Claim C3. When the start index is below zero the command sent to the debugger starts
  at address \<open>0\<close>, whatever the instruction list holds. For the instructions at
  \<^verbatim>\<open>8000, 8003, 8006\<close>, address \<^verbatim>\<open>0x8000\<close>, count 4 and offset \<open>-2\<close> the
  two no-op records are those of the indices \<open>-2\<close> and \<open>-1\<close> and the command is
  \<^verbatim>\<open>u 0 2\<close>, while the window of count 2 at offset 0, which starts at the same
  index 0, sends \<^verbatim>\<open>u 8000 2\<close>.
\<close>

theorem disassemble_window_starts_at_zero:
  "debuggerWindow il (- 1 - int k) n = (Some 0, n + (- 1 - int k)) \<and>
   nopLoop (- 2) 2 =
     [\<lparr>address = Some ''-2'', instruction = Some ''00        nop'', line = - 1\<rparr>,
      \<lparr>address = Some ''-1 '', instruction = Some ''00        nop'', line = - 1\<rparr>] \<and>
   written (snd (disassemble 0x8000 4 (- 2)
      (init\<lparr>lineMap := Some [''8000'', ''8003'', ''8006''],
            instructionList := Some [Some 0x8000, Some 0x8003, Some 0x8006]\<rparr>) [])) =
     [''u 0 2'' @ [CR, LF]] \<and>
   written (snd (disassemble 0x8000 2 0
      (init\<lparr>lineMap := Some [''8000'', ''8003'', ''8006''],
            instructionList := Some [Some 0x8000, Some 0x8003, Some 0x8006]\<rparr>) [])) =
     [''u 8000 2'' @ [CR, LF]]"
proof -
  have a: "debuggerWindow il (- 1 - int k) n = (Some 0, n + (- 1 - int k))"
    by (simp add: debuggerWindow_def)
  have b: "baseInstr [Some 0x8000, Some 0x8003, Some 0x8006] 0x8000 = 0"
    by (simp add: baseInstr_def endAddress_def)
  have h0: "toHex 0 = ''0''" and h2: "toHex 2 = ''2''" by (simp_all add: toHex.simps hexDigit_def)
  have h8: "toHex 32768 = ''8000''" by (simp add: toHex.simps hexDigit_def)
  have w1: "written (snd (disassemble 0x8000 4 (- 2)
      (init\<lparr>lineMap := Some [''8000'', ''8003'', ''8006''],
            instructionList := Some [Some 0x8000, Some 0x8003, Some 0x8006]\<rparr>) [])) =
     [''u 0 2'' @ [CR, LF]]"
    by (simp add: disassemble_def b debuggerWindow_def toString16_def h0 h2 queue_eval)
  have w2: "written (snd (disassemble 0x8000 2 0
      (init\<lparr>lineMap := Some [''8000'', ''8003'', ''8006''],
            instructionList := Some [Some 0x8000, Some 0x8003, Some 0x8006]\<rparr>) [])) =
     [''u 8000 2'' @ [CR, LF]]"
    by (simp add: disassemble_def b debuggerWindow_def toString16_def h8 h2 queue_eval)
  have n: "nopLoop (- 2) 2 =
     [\<lparr>address = Some ''-2'', instruction = Some ''00        nop'', line = - 1\<rparr>,
      \<lparr>address = Some ''-1 '', instruction = Some ''00        nop'', line = - 1\<rparr>]"
    by (simp add: nopLoop.simps nop_def toString16_def h2)
  show ?thesis using a n w1 w2 by simp
qed

end
